theory Spec2Isabelle
  imports Complex_Main "HOL-Library.AList"
begin

section \<open>Python values\<close>

subsection \<open>Strings\<close>

text \<open>
  A Python \<open>str\<close> is a sequence of Unicode code points; \<open>len\<close>, slicing, \<open>strip\<close> and
  the \<open>re\<close> module all work on code points. A string is therefore a list of naturals,
  and \<open>str\<close> writes an ASCII literal as such a list.
\<close>

type_synonym ustring = "nat list"

definition str :: "string \<Rightarrow> ustring" where
  "str s = map of_char s"

text \<open>
  \<open>is_space\<close> is CPython's \<open>Py_UNICODE_ISSPACE\<close>: the test behind \<open>str.strip()\<close>,
  \<open>str.isspace()\<close> and the class \<open>\s\<close> of a \<open>str\<close> pattern.
\<close>

definition is_space :: "nat \<Rightarrow> bool" where
  "is_space c \<longleftrightarrow>
     (9 \<le> c \<and> c \<le> 13) \<or> (28 \<le> c \<and> c \<le> 32) \<or> c = 133 \<or> c = 160 \<or> c = 5760 \<or>
     (8192 \<le> c \<and> c \<le> 8202) \<or> c = 8232 \<or> c = 8233 \<or> c = 8239 \<or> c = 8287 \<or> c = 12288"

definition strip :: "ustring \<Rightarrow> ustring" where
  "strip s = rev (dropWhile is_space (rev (dropWhile is_space s)))"

text \<open>
  In words: \<open>t\<close> is \<open>s\<close> stripped of surrounding white space when \<open>s\<close> is \<open>t\<close> between
  two runs of white space and \<open>t\<close> itself neither begins nor ends with white space.
\<close>

definition stripped_of :: "ustring \<Rightarrow> ustring \<Rightarrow> bool" where
  "stripped_of t s \<longleftrightarrow>
     (\<exists>l r. s = l @ t @ r \<and> (\<forall>c\<in>set l. is_space c) \<and> (\<forall>c\<in>set r. is_space c)) \<and>
     (t = [] \<or> (\<not> is_space (hd t) \<and> \<not> is_space (last t)))"

subsection \<open>JSON values and dynamic operations\<close>

text \<open>
  The values that \<open>json.loads\<close> produces, which are also the values the pipeline passes
  around in its dicts. A \<open>dict\<close> is an association list with distinct keys in insertion
  order. A float is kept as the numeral text it was read from (floating point arithmetic
  is never performed on it by this program).
\<close>

datatype json =
    JNull | JBool bool | JInt int | JFloat ustring | JStr ustring
  | JArray "json list" | JObject "(ustring \<times> json) list"

datatype py_error =
    JSONDecodeError | RecursionError | ValueError | AttributeError | TypeError | KeyError
  | TransportError | HTTPStatusError | OpenAIError

text \<open>\<open>obj.get(key, default)\<close>: only a dict has the method.\<close>

fun py_get :: "json \<Rightarrow> ustring \<Rightarrow> json \<Rightarrow> py_error + json" where
  "py_get (JObject kvs) k d = Inr (case map_of kvs k of None \<Rightarrow> d | Some v \<Rightarrow> v)"
| "py_get _ k d = Inl AttributeError"

text \<open>The items a \<open>for\<close> loop visits: list elements, the characters of a string, the keys of a dict.\<close>

fun py_iter :: "json \<Rightarrow> py_error + json list" where
  "py_iter (JArray xs) = Inr xs"
| "py_iter (JStr s) = Inr (map (\<lambda>c. JStr [c]) s)"
| "py_iter (JObject kvs) = Inr (map (\<lambda>kv. JStr (fst kv)) kvs)"
| "py_iter _ = Inl TypeError"

text \<open>\<open>value[:500]\<close>: defined on strings and lists only.\<close>

fun py_slice500 :: "json \<Rightarrow> py_error + json" where
  "py_slice500 (JStr s) = Inr (JStr (take 500 s))"
| "py_slice500 (JArray xs) = Inr (JArray (take 500 xs))"
| "py_slice500 _ = Inl TypeError"

section \<open>The \<open>re\<close> module on the pattern of the pipeline\<close>

text \<open>
  A backtracking matcher with the priorities of Python's \<open>re\<close>: a greedy quantifier tries
  the longer repetition first, a lazy one the shorter, an alternation its left branch
  first, and the first success is the match. A pattern is a list of nodes; quantifiers
  range over single-character atoms, which is all the pattern of the pipeline needs.
  \<open>Any\<close> is \<open>.\<close> without DOTALL (anything but a line feed), \<open>Space\<close> is \<open>\s\<close>,
  \<open>OneOf\<close> lists the code points a literal matches under IGNORECASE, \<open>Eos\<close> is \<open>$\<close>
  without MULTILINE (the end, or just before a final line feed).
\<close>

datatype atom = Any | Space | Lit nat | OneOf "nat list"

fun accepts :: "atom \<Rightarrow> nat \<Rightarrow> bool" where
  "accepts Any c = (c \<noteq> 10)"
| "accepts Space c = is_space c"
| "accepts (Lit x) c = (c = x)"
| "accepts (OneOf xs) c = (c \<in> set xs)"

datatype node =
    Chr atom | Opt atom | Plus atom | Star atom | LazyPlus atom | LazyStar atom
  | Open nat | Close nat | Eos | Alt "node list" "node list"

text \<open>Where each group was opened, and the span of each group that has been closed.\<close>

record caps =
  starts :: "nat \<Rightarrow> nat"
  spans :: "nat \<Rightarrow> (nat \<times> nat) option"

function re_match :: "node list \<Rightarrow> ustring \<Rightarrow> nat \<Rightarrow> caps \<Rightarrow> (nat \<times> caps) option" where
  "re_match [] inp pos c = Some (pos, c)"
| "re_match (Chr a # ns) inp pos c =
     (case inp of
        [] \<Rightarrow> None
      | x # xs \<Rightarrow> if accepts a x then re_match ns xs (Suc pos) c else None)"
| "re_match (Opt a # ns) inp pos c =
     (case inp of
        [] \<Rightarrow> re_match ns inp pos c
      | x # xs \<Rightarrow>
          if accepts a x
          then (case re_match ns xs (Suc pos) c of
                  Some r \<Rightarrow> Some r
                | None \<Rightarrow> re_match ns inp pos c)
          else re_match ns inp pos c)"
| "re_match (Plus a # ns) inp pos c =
     (case inp of
        [] \<Rightarrow> None
      | x # xs \<Rightarrow> if accepts a x then re_match (Star a # ns) xs (Suc pos) c else None)"
| "re_match (Star a # ns) inp pos c =
     (case inp of
        [] \<Rightarrow> re_match ns inp pos c
      | x # xs \<Rightarrow>
          if accepts a x
          then (case re_match (Star a # ns) xs (Suc pos) c of
                  Some r \<Rightarrow> Some r
                | None \<Rightarrow> re_match ns inp pos c)
          else re_match ns inp pos c)"
| "re_match (LazyPlus a # ns) inp pos c =
     (case inp of
        [] \<Rightarrow> None
      | x # xs \<Rightarrow> if accepts a x then re_match (LazyStar a # ns) xs (Suc pos) c else None)"
| "re_match (LazyStar a # ns) inp pos c =
     (case re_match ns inp pos c of
        Some r \<Rightarrow> Some r
      | None \<Rightarrow>
          (case inp of
             [] \<Rightarrow> None
           | x # xs \<Rightarrow>
               if accepts a x then re_match (LazyStar a # ns) xs (Suc pos) c else None))"
| "re_match (Open g # ns) inp pos c = re_match ns inp pos (c\<lparr>starts := (starts c)(g := pos)\<rparr>)"
| "re_match (Close g # ns) inp pos c =
     re_match ns inp pos (c\<lparr>spans := (spans c)(g \<mapsto> (starts c g, pos))\<rparr>)"
| "re_match (Eos # ns) inp pos c =
     (if inp = [] \<or> inp = [10] then re_match ns inp pos c else None)"
| "re_match (Alt p q # ns) inp pos c =
     (case re_match (p @ ns) inp pos c of
        Some r \<Rightarrow> Some r
      | None \<Rightarrow> re_match (q @ ns) inp pos c)"
  by pat_completeness auto
termination
  by (relation "measures [\<lambda>(ns, inp, pos, c). length inp, \<lambda>(ns, inp, pos, c). size_list size ns]")
     (auto simp: size_list_append)

text \<open>
  \<open>re.search\<close>: the match at the leftmost start position that has one. The result is the
  start, the end and the groups.
\<close>

fun re_search_from :: "node list \<Rightarrow> ustring \<Rightarrow> nat \<Rightarrow> (nat \<times> nat \<times> caps) option" where
  "re_search_from p [] pos =
     (case re_match p [] pos \<lparr>starts = (\<lambda>_. 0), spans = Map.empty\<rparr> of
        Some (e, c) \<Rightarrow> Some (pos, e, c)
      | None \<Rightarrow> None)"
| "re_search_from p (x # xs) pos =
     (case re_match p (x # xs) pos \<lparr>starts = (\<lambda>_. 0), spans = Map.empty\<rparr> of
        Some (e, c) \<Rightarrow> Some (pos, e, c)
      | None \<Rightarrow> re_search_from p xs (Suc pos))"

definition re_search :: "node list \<Rightarrow> ustring \<Rightarrow> (nat \<times> nat \<times> caps) option" where
  "re_search p s = re_search_from p s 0"

text \<open>\<open>match.group(g)\<close>: the matched text, or \<open>None\<close> for a group that took no part.\<close>

definition group :: "ustring \<Rightarrow> nat \<times> nat \<times> caps \<Rightarrow> nat \<Rightarrow> ustring option" where
  "group s mt g =
     (case spans (snd (snd mt)) g of
        None \<Rightarrow> None
      | Some (i, j) \<Rightarrow> Some (take (j - i) (drop i s)))"

text \<open>
  \<^verbatim>\<open>vs_pattern = r"(.+?)\s+vs\.?\s+(.+?)(?:\?|$)"\<close>, used with \<open>re.IGNORECASE\<close>:
  \<open>v\<close> then matches \<open>v\<close> and \<open>V\<close>; \<open>s\<close> matches \<open>s\<close>, \<open>S\<close> and the long s (U+017F).
\<close>

definition vs_pattern :: "node list" where
  "vs_pattern =
     [Open 1, LazyPlus Any, Close 1,
      Plus Space,
      Chr (OneOf [118, 86]), Chr (OneOf [115, 83, 383]),
      Opt (Lit 46),
      Plus Space,
      Open 2, LazyPlus Any, Close 2,
      Alt [Chr (Lit 63)] [Eos]]"

subsection \<open>What the pattern describes\<close>

text \<open>
  A reading of patterns without priorities: \<open>matches_at p inp\<close> holds when some prefix of
  \<open>inp\<close> is in the language of \<open>p\<close>. It says nothing about which match the matcher
  picks, only whether there is one; the matcher is proved to agree with it below.
\<close>

inductive matches_at :: "node list \<Rightarrow> ustring \<Rightarrow> bool" where
  m_Nil: "matches_at [] inp"
| m_Chr: "accepts a x \<Longrightarrow> matches_at ns xs \<Longrightarrow> matches_at (Chr a # ns) (x # xs)"
| m_Opt_skip: "matches_at ns inp \<Longrightarrow> matches_at (Opt a # ns) inp"
| m_Opt_take: "accepts a x \<Longrightarrow> matches_at ns xs \<Longrightarrow> matches_at (Opt a # ns) (x # xs)"
| m_Plus: "accepts a x \<Longrightarrow> matches_at (Star a # ns) xs \<Longrightarrow> matches_at (Plus a # ns) (x # xs)"
| m_Star_skip: "matches_at ns inp \<Longrightarrow> matches_at (Star a # ns) inp"
| m_Star_take: "accepts a x \<Longrightarrow> matches_at (Star a # ns) xs \<Longrightarrow> matches_at (Star a # ns) (x # xs)"
| m_LazyPlus:
    "accepts a x \<Longrightarrow> matches_at (LazyStar a # ns) xs \<Longrightarrow> matches_at (LazyPlus a # ns) (x # xs)"
| m_LazyStar_skip: "matches_at ns inp \<Longrightarrow> matches_at (LazyStar a # ns) inp"
| m_LazyStar_take:
    "accepts a x \<Longrightarrow> matches_at (LazyStar a # ns) xs \<Longrightarrow> matches_at (LazyStar a # ns) (x # xs)"
| m_Open: "matches_at ns inp \<Longrightarrow> matches_at (Open g # ns) inp"
| m_Close: "matches_at ns inp \<Longrightarrow> matches_at (Close g # ns) inp"
| m_Eos: "inp = [] \<or> inp = [10] \<Longrightarrow> matches_at ns inp \<Longrightarrow> matches_at (Eos # ns) inp"
| m_Alt_left: "matches_at (p @ ns) inp \<Longrightarrow> matches_at (Alt p q # ns) inp"
| m_Alt_right: "matches_at (q @ ns) inp \<Longrightarrow> matches_at (Alt p q # ns) inp"

text \<open>
  The shape of an "A vs B" question, written out in the words of the specification: two
  spans with no line feed in them, separated by white space, the token \<open>vs\<close> in any case,
  an optional full stop and white space again, the second span followed by a question
  mark or by the end of the string (a final line feed allowed). \<open>vs_shape_at\<close> is the shape
  starting at the first character, \<open>vs_shape\<close> the shape starting anywhere.
\<close>

definition vs_shape_at :: "ustring \<Rightarrow> bool" where
  "vs_shape_at suf \<longleftrightarrow>
     (\<exists>a ws1 v s dot ws2 b post.
        suf = a @ ws1 @ [v, s] @ dot @ ws2 @ b @ post \<and>
        a \<noteq> [] \<and> 10 \<notin> set a \<and>
        ws1 \<noteq> [] \<and> (\<forall>c\<in>set ws1. is_space c) \<and>
        (v = 118 \<or> v = 86) \<and> (s = 115 \<or> s = 83 \<or> s = 383) \<and>
        (dot = [] \<or> dot = [46]) \<and>
        ws2 \<noteq> [] \<and> (\<forall>c\<in>set ws2. is_space c) \<and>
        b \<noteq> [] \<and> 10 \<notin> set b \<and>
        (post = [] \<or> post = [10] \<or> (\<exists>t. post = 63 # t)))"

definition vs_shape :: "ustring \<Rightarrow> bool" where
  "vs_shape q \<longleftrightarrow> (\<exists>pre suf. q = pre @ suf \<and> vs_shape_at suf)"

section \<open>The \<open>json\<close> module\<close>

text \<open>
  \<open>json.loads\<close> as CPython's decoder reads a \<open>str\<close>: white space is blank, tab, line feed
  and carriage return; strings are strict (no raw control characters) with the escapes
  of JSON and surrogate pairs joined; numbers follow the JSON grammar; \<open>NaN\<close>,
  \<open>Infinity\<close> and \<open>-Infinity\<close> are accepted; a repeated key keeps its first position and
  its last value; anything after the value but white space is an error.

  The decoder raises three exceptions. A text outside the grammar gives
  \<open>json.JSONDecodeError\<close>. Entering an array or an object when the interpreter's recursion
  limit is reached gives \<open>RecursionError\<close>, and an integer with more digits than
  \<open>sys.get_int_max_str_digits()\<close> gives a plain \<open>ValueError\<close>; both are raised where the
  decoder stands, before it has seen the rest of the text. The two limits depend on the
  interpreter and on the depth of the call stack, so they are parameters: \<open>max_depth\<close> is
  the number of containers that can still be nested when \<open>json.loads\<close> is called,
  \<open>max_str_digits\<close> the digit limit, with 0 for an interpreter that has none.
\<close>

record py_limits =
  max_depth :: nat
  max_str_digits :: nat

definition skip_ws :: "ustring \<Rightarrow> ustring" where
  "skip_ws s = dropWhile (\<lambda>c. c = 32 \<or> c = 9 \<or> c = 10 \<or> c = 13) s"

definition is_digit :: "nat \<Rightarrow> bool" where
  "is_digit c \<longleftrightarrow> 48 \<le> c \<and> c \<le> 57"

definition hex_val :: "nat \<Rightarrow> nat option" where
  "hex_val c =
     (if 48 \<le> c \<and> c \<le> 57 then Some (c - 48)
      else if 97 \<le> c \<and> c \<le> 102 then Some (c - 87)
      else if 65 \<le> c \<and> c \<le> 70 then Some (c - 55)
      else None)"

fun hex4 :: "ustring \<Rightarrow> (nat \<times> ustring) option" where
  "hex4 (a # b # c # d # rest) =
     (case (hex_val a, hex_val b, hex_val c, hex_val d) of
        (Some x, Some y, Some z, Some w) \<Rightarrow> Some (((x * 16 + y) * 16 + z) * 16 + w, rest)
      | _ \<Rightarrow> None)"
| "hex4 _ = None"

definition unescape :: "nat \<Rightarrow> nat option" where
  "unescape e =
     (if e = 34 then Some 34 else if e = 92 then Some 92 else if e = 47 then Some 47
      else if e = 98 then Some 8 else if e = 102 then Some 12 else if e = 110 then Some 10
      else if e = 114 then Some 13 else if e = 116 then Some 9 else None)"

definition low_surrogate :: "ustring \<Rightarrow> (nat \<times> ustring) option" where
  "low_surrogate s =
     (case s of
        b # u # rest \<Rightarrow>
          if b = 92 \<and> u = 117 then
            (case hex4 rest of
               Some (lo, rest') \<Rightarrow> if 56320 \<le> lo \<and> lo \<le> 57343 then Some (lo, rest') else None
             | None \<Rightarrow> None)
          else None
      | _ \<Rightarrow> None)"

lemma hex4_length: "hex4 s = Some (v, r) \<Longrightarrow> length r < length s"
  by (induction s rule: hex4.induct) (auto split: option.splits)

lemma low_surrogate_length: "low_surrogate s = Some (v, r) \<Longrightarrow> length r < length s"
  by (auto simp: low_surrogate_def split: list.splits if_splits option.splits dest: hex4_length)

text \<open>The body of a string, after its opening quote: the decoded text and what follows the closing quote.\<close>

function scanstring :: "ustring \<Rightarrow> ustring \<Rightarrow> (ustring \<times> ustring) option" where
  "scanstring acc [] = None"
| "scanstring acc (c # cs) =
     (if c = 34 then Some (acc, cs)
      else if c = 92 then
        (case cs of
           [] \<Rightarrow> None
         | e # es \<Rightarrow>
             if e = 117 then
               (case hex4 es of
                  None \<Rightarrow> None
                | Some (uni, rest) \<Rightarrow>
                    if 55296 \<le> uni \<and> uni \<le> 56319 then
                      (case low_surrogate rest of
                         Some (lo, rest') \<Rightarrow>
                           scanstring (acc @ [65536 + ((uni - 55296) * 1024 + (lo - 56320))]) rest'
                       | None \<Rightarrow> scanstring (acc @ [uni]) rest)
                    else scanstring (acc @ [uni]) rest)
             else
               (case unescape e of
                  None \<Rightarrow> None
                | Some ch \<Rightarrow> scanstring (acc @ [ch]) es))
      else if c < 32 then None
      else scanstring (acc @ [c]) cs)"
  by pat_completeness auto
termination
  by (relation "measure (\<lambda>(acc, s). length s)")
     (auto dest!: hex4_length low_surrogate_length)

lemma scanstring_length: "scanstring acc s = Some (v, r) \<Longrightarrow> length r < length s"
proof (induction acc s arbitrary: v r rule: scanstring.induct)
  case (1 acc)
  then show ?case by simp
next
  case (2 acc c cs)
  show ?case
  proof (cases "c = 34")
    case True
    with 2 show ?thesis by simp
  next
    case False
    then show ?thesis
      using "2.prems" "2.IH"
      by (fastforce split: if_splits list.splits option.splits
            dest: hex4_length low_surrogate_length)
  qed
qed

definition digits_val :: "ustring \<Rightarrow> int" where
  "digits_val ds = foldl (\<lambda>n d. 10 * n + (int d - 48)) 0 ds"

definition scan_integer :: "ustring \<Rightarrow> ustring option" where
  "scan_integer s =
     (let sgn = (case s of [] \<Rightarrow> [] | x # _ \<Rightarrow> if x = 45 then [x] else [])
      in case drop (length sgn) s of
           [] \<Rightarrow> None
         | d # r \<Rightarrow>
             if d = 48 then Some (sgn @ [d])
             else if 49 \<le> d \<and> d \<le> 57 then Some (sgn @ d # takeWhile is_digit r)
             else None)"

definition scan_fraction :: "ustring \<Rightarrow> ustring" where
  "scan_fraction s =
     (case s of
        [] \<Rightarrow> []
      | p # r \<Rightarrow>
          if p = 46 \<and> takeWhile is_digit r \<noteq> [] then p # takeWhile is_digit r else [])"

definition scan_exponent :: "ustring \<Rightarrow> ustring" where
  "scan_exponent s =
     (case s of
        [] \<Rightarrow> []
      | e # r \<Rightarrow>
          if e = 101 \<or> e = 69 then
            (let sgn = (case r of [] \<Rightarrow> [] | x # _ \<Rightarrow> if x = 43 \<or> x = 45 then [x] else []);
                 ds = takeWhile is_digit (drop (length sgn) r)
             in if ds = [] then [] else e # sgn @ ds)
          else [])"

definition match_number :: "nat \<Rightarrow> ustring \<Rightarrow> py_error + json \<times> ustring" where
  "match_number max_digits s =
     (case scan_integer s of
        None \<Rightarrow> Inl JSONDecodeError
      | Some ip \<Rightarrow>
          (let frac = scan_fraction (drop (length ip) s);
               ex = scan_exponent (drop (length ip + length frac) s);
               lit = ip @ frac @ ex
           in if frac = [] \<and> ex = []
              then if max_digits \<noteq> 0 \<and> max_digits < length (filter is_digit ip)
                   then Inl ValueError
                   else Inr (JInt (case ip of
                                     [] \<Rightarrow> 0
                                   | x # ds \<Rightarrow> if x = 45 then - digits_val ds else digits_val ip),
                             drop (length lit) s)
              else Inr (JFloat lit, drop (length lit) s)))"

definition match_constant :: "ustring \<Rightarrow> (json \<times> ustring) option" where
  "match_constant s =
     (if take 4 s = str ''null'' then Some (JNull, drop 4 s)
      else if take 4 s = str ''true'' then Some (JBool True, drop 4 s)
      else if take 5 s = str ''false'' then Some (JBool False, drop 5 s)
      else if take 3 s = str ''NaN'' then Some (JFloat (str ''NaN''), drop 3 s)
      else if take 8 s = str ''Infinity'' then Some (JFloat (str ''Infinity''), drop 8 s)
      else if take 9 s = str ''-Infinity'' then Some (JFloat (str ''-Infinity''), drop 9 s)
      else None)"

lemma skip_ws_length: "length (skip_ws s) \<le> length s"
  by (simp add: skip_ws_def length_dropWhile_le)

lemma skip_ws_Cons_length: "skip_ws s = d # r \<Longrightarrow> length r < length s"
  using skip_ws_length [of s] by simp

text \<open>
  The recursive descent of the decoder: a value, the rest of a non-empty array, the rest
  of a non-empty object. Each returns what follows the text it read. \<open>room\<close> is the
  number of containers that can still be entered. The tests \<open>length r < length s\<close> keep
  the recursion well-founded on their own; lemma \<open>parse_value_length\<close> below shows that
  they never fail.
\<close>

function parse_value :: "nat \<Rightarrow> nat \<Rightarrow> ustring \<Rightarrow> py_error + json \<times> ustring"
  and parse_items :: "nat \<Rightarrow> nat \<Rightarrow> json list \<Rightarrow> ustring \<Rightarrow> py_error + json \<times> ustring"
  and parse_pairs ::
    "nat \<Rightarrow> nat \<Rightarrow> (ustring \<times> json) list \<Rightarrow> ustring \<Rightarrow> py_error + json \<times> ustring"
where
  "parse_value md room s =
     (case s of
        [] \<Rightarrow> Inl JSONDecodeError
      | c # cs \<Rightarrow>
          if c = 34 then
            (case scanstring [] cs of
               None \<Rightarrow> Inl JSONDecodeError
             | Some (v, r) \<Rightarrow> Inr (JStr v, r))
          else if c = 123 then
            (if room = 0 then Inl RecursionError
             else
               (case skip_ws cs of
                  [] \<Rightarrow> Inl JSONDecodeError
                | d # r \<Rightarrow>
                    if d = 125 then Inr (JObject [], r)
                    else parse_pairs md (room - 1) [] (d # r)))
          else if c = 91 then
            (if room = 0 then Inl RecursionError
             else
               (case skip_ws cs of
                  [] \<Rightarrow> Inl JSONDecodeError
                | d # r \<Rightarrow>
                    if d = 93 then Inr (JArray [], r)
                    else parse_items md (room - 1) [] (d # r)))
          else
            (case match_constant s of
               Some res \<Rightarrow> Inr res
             | None \<Rightarrow> match_number md s))"
| "parse_items md room acc s =
     (case parse_value md room s of
        Inl e \<Rightarrow> Inl e
      | Inr (v, r) \<Rightarrow>
          if length r < length s then
            (case skip_ws r of
               [] \<Rightarrow> Inl JSONDecodeError
             | d # r' \<Rightarrow>
                 if d = 93 then Inr (JArray (acc @ [v]), r')
                 else if d = 44 then parse_items md room (acc @ [v]) (skip_ws r')
                 else Inl JSONDecodeError)
          else Inl JSONDecodeError)"
| "parse_pairs md room acc s =
     (case s of
        [] \<Rightarrow> Inl JSONDecodeError
      | q # cs \<Rightarrow>
          if q = 34 then
            (case scanstring [] cs of
               None \<Rightarrow> Inl JSONDecodeError
             | Some (k, r) \<Rightarrow>
                 (case skip_ws r of
                    [] \<Rightarrow> Inl JSONDecodeError
                  | colon # r1 \<Rightarrow>
                      if colon = 58 then
                        (case parse_value md room (skip_ws r1) of
                           Inl e \<Rightarrow> Inl e
                         | Inr (v, r2) \<Rightarrow>
                             if length r2 < length s then
                               (case skip_ws r2 of
                                  [] \<Rightarrow> Inl JSONDecodeError
                                | d # r3 \<Rightarrow>
                                    if d = 125 then Inr (JObject (AList.update k v acc), r3)
                                    else if d = 44 then
                                      parse_pairs md room (AList.update k v acc) (skip_ws r3)
                                    else Inl JSONDecodeError)
                             else Inl JSONDecodeError)
                      else Inl JSONDecodeError))
          else Inl JSONDecodeError)"
  by pat_completeness auto
termination
proof (relation "measure (\<lambda>x. case x of
          Inl (md, room, s) \<Rightarrow> 2 * length s
        | Inr (Inl (md, room, acc, s)) \<Rightarrow> 2 * length s + 1
        | Inr (Inr (md, room, acc, s)) \<Rightarrow> 2 * length s + 1)", goal_cases)
  case 1
  then show ?case by simp
next
  case (2 md room s c cs d r)
  then show ?case using skip_ws_length [of cs] by simp
next
  case (3 md room s c cs d r)
  then show ?case using skip_ws_length [of cs] by simp
next
  case (4 md room acc s)
  then show ?case by simp
next
  case (5 md room acc s x v r d r')
  then show ?case using skip_ws_length [of r'] skip_ws_Cons_length [of r d r'] by simp
next
  case (6 md room acc s q cs x k r colon r1)
  then show ?case
    using skip_ws_length [of r1] skip_ws_Cons_length [of r colon r1]
      scanstring_length [of "[]" cs k r]
    by simp
next
  case (7 md room acc s q cs x k r colon r1 y v r2 d r3)
  then show ?case using skip_ws_length [of r3] skip_ws_Cons_length [of r2 d r3] by simp
qed

definition json_loads :: "py_limits \<Rightarrow> ustring \<Rightarrow> py_error + json" where
  "json_loads lims s =
     (case parse_value (max_str_digits lims) (max_depth lims) (skip_ws s) of
        Inl e \<Rightarrow> Inl e
      | Inr (v, r) \<Rightarrow> if skip_ws r = [] then Inr v else Inl JSONDecodeError)"

section \<open>Backends and agents\<close>

text \<open>
  The two network services and the process environment are parameters of the model. A
  backend is a function of the request and of a world state \<open>'w\<close> that it may change, so
  that it can answer the same request differently at different times. The outcome of
  the HTTP exchange is what the \<open>try\<close> block of \<open>ScoutAgent.search\<close> can observe:
  \<open>client.post\<close> raised, \<open>raise_for_status\<close> raised, or the body arrived. The outcome of
  a chat completion is that anything in the \<open>try\<close> block of \<open>_call_openai\<close> raised, or
  the text of the first choice. \<open>json.dumps(_, indent=2)\<close> only shapes a prompt and is a
  parameter as well, and so are the limits of the interpreter that \<open>json.loads\<close> runs
  into. What \<open>print\<close> writes is not part of the model.
\<close>

datatype http_outcome = ConnectFailed | BadStatus | Body ustring

datatype chat_outcome = ChatRaised | ChatContent ustring

record payload =
  p_api_key :: ustring
  p_query :: ustring
  p_max_results :: int
  p_search_depth :: ustring
  p_include_answer :: bool
  p_include_raw_content :: bool
  p_include_images :: bool

record chat_kwargs =
  k_model :: ustring
  k_messages :: "(ustring \<times> json) list"
  k_temperature :: rat
  k_response_format :: "ustring option"

record 'w env =
  getenv :: "ustring \<Rightarrow> ustring option"
  limits :: py_limits
  http_post :: "ustring \<Rightarrow> payload \<Rightarrow> 'w \<Rightarrow> http_outcome \<times> 'w"
  chat_create :: "ustring \<Rightarrow> chat_kwargs \<Rightarrow> 'w \<Rightarrow> chat_outcome \<times> 'w"
  json_dumps :: "json \<Rightarrow> ustring"

text \<open>
  The dicts the pipeline builds have fixed keys and are records here: a search hit, and
  an enriched product, which is a hit with a summary.
\<close>

record hit =
  title :: json
  url :: json
  snippet :: json

record product = hit +
  summary :: ustring

definition product_json :: "product \<Rightarrow> json" where
  "product_json p =
     JObject [(str ''title'', title p), (str ''url'', url p), (str ''snippet'', snippet p),
              (str ''summary'', JStr (summary p))]"

text \<open>
  The state threaded through a run: the world of the backends, and the calls made on
  the two agents so far, oldest first.
\<close>

datatype call = SearchCall ustring int | ExtractCall json | JudgeCall ustring "product list"

record 'w state =
  world :: 'w
  calls :: "call list"

fun is_search :: "call \<Rightarrow> bool" where
  "is_search (SearchCall q k) = True"
| "is_search _ = False"

fun is_extract :: "call \<Rightarrow> bool" where
  "is_extract (ExtractCall sn) = True"
| "is_extract _ = False"

fun is_judge :: "call \<Rightarrow> bool" where
  "is_judge (JudgeCall q ps) = True"
| "is_judge _ = False"

subsection \<open>ScoutAgent\<close>

record scout_agent =
  tavily_api_key :: ustring
  base_url :: ustring

definition ScoutAgent_init :: "'w env \<Rightarrow> py_error + scout_agent" where
  "ScoutAgent_init env =
     (case getenv env (str ''TAVILY_API_KEY'') of
        None \<Rightarrow> Inl ValueError
      | Some k \<Rightarrow>
          if k = [] then Inl ValueError
          else Inr \<lparr>tavily_api_key = k, base_url = str ''https://api.tavily.com''\<rparr>)"

text \<open>The loop over \<open>data.get("results", [])\<close>, with \<open>results\<close> as its accumulator.\<close>

fun normalize_results :: "hit list \<Rightarrow> json list \<Rightarrow> py_error + hit list" where
  "normalize_results results [] = Inr results"
| "normalize_results results (result # rest) =
     (case py_get result (str ''title'') (JStr []) of
        Inl e \<Rightarrow> Inl e
      | Inr t \<Rightarrow>
          (case py_get result (str ''url'') (JStr []) of
             Inl e \<Rightarrow> Inl e
           | Inr u \<Rightarrow>
               (case py_get result (str ''content'') (JStr []) of
                  Inl e \<Rightarrow> Inl e
                | Inr c \<Rightarrow>
                    (case py_slice500 c of
                       Inl e \<Rightarrow> Inl e
                     | Inr sn \<Rightarrow>
                         normalize_results
                           (results @ [\<lparr>title = t, url = u, snippet = sn\<rparr>]) rest))))"

text \<open>The \<open>try\<close> block of \<open>search\<close>: every exception it can raise is an \<open>Inl\<close>.\<close>

definition search_payload :: "scout_agent \<Rightarrow> ustring \<Rightarrow> int \<Rightarrow> payload" where
  "search_payload self q max_results =
     \<lparr>p_api_key = tavily_api_key self, p_query = q, p_max_results = max_results,
      p_search_depth = str ''advanced'', p_include_answer = False,
      p_include_raw_content = False, p_include_images = False\<rparr>"

definition search_try ::
  "'w env \<Rightarrow> scout_agent \<Rightarrow> ustring \<Rightarrow> int \<Rightarrow> 'w \<Rightarrow> (py_error + hit list) \<times> 'w" where
  "search_try env self q max_results w =
     (let payload = search_payload self q max_results;
          (outcome, w') = http_post env (base_url self @ str ''/search'') payload w
      in (case outcome of
            ConnectFailed \<Rightarrow> Inl TransportError
          | BadStatus \<Rightarrow> Inl HTTPStatusError
          | Body text \<Rightarrow>
              (case json_loads (limits env) text of
                 Inl e \<Rightarrow> Inl e
               | Inr data \<Rightarrow>
                   (case py_get data (str ''results'') (JArray []) of
                      Inl e \<Rightarrow> Inl e
                    | Inr rs \<Rightarrow>
                        (case py_iter rs of
                           Inl e \<Rightarrow> Inl e
                         | Inr items \<Rightarrow> normalize_results [] items))),
          w'))"

text \<open>\<open>search\<close> itself: \<open>except Exception\<close> turns every failure into the empty list.\<close>

definition search ::
  "'w env \<Rightarrow> scout_agent \<Rightarrow> ustring \<Rightarrow> int \<Rightarrow> 'w state \<Rightarrow> hit list \<times> 'w state" where
  "search env self q max_results st =
     (let (r, w') = search_try env self q max_results (world st)
      in (case r of Inl e \<Rightarrow> [] | Inr results \<Rightarrow> results,
          \<lparr>world = w', calls = calls st @ [SearchCall q max_results]\<rparr>))"

subsection \<open>JudgeAgent\<close>

record judge_agent =
  api_key :: ustring
  model :: ustring

definition JudgeAgent_init :: "'w env \<Rightarrow> py_error + judge_agent" where
  "JudgeAgent_init env =
     (case getenv env (str ''OPENAI_API_KEY'') of
        None \<Rightarrow> Inl ValueError
      | Some k \<Rightarrow>
          if k = [] then Inl ValueError
          else Inr \<lparr>api_key = k,
                    model = (case getenv env (str ''OPENAI_MODEL'') of
                               None \<Rightarrow> str ''gpt-4o-mini''
                             | Some m \<Rightarrow> m)\<rparr>)"

text \<open>A triple-quoted literal: its lines joined by line feeds.\<close>

fun lines_text :: "string list \<Rightarrow> ustring" where
  "lines_text [] = []"
| "lines_text [l] = str l"
| "lines_text (l # ls) = str l @ [10] @ lines_text ls"

definition extract_system_prompt :: ustring where
  "extract_system_prompt = lines_text
     [''You are a meticulous shopping researcher. Extract and summarize:'',
      ''        1. Key specifications'',
      ''        2. Price (in USD if available)'',
      ''        3. Main pros and cons'',
      ''        4. Any notable features'',
      ''        '',
      ''        Format as a concise summary.'']"

definition judge_system_prompt :: ustring where
  "judge_system_prompt = lines_text
     [''You are an expert tech reviewer.'',
      ''        Analyze the products and return a JSON response with:'',
      ''        - winner: string (best overall product or chosen between A/B)'',
      ''        - ranking: list (ordered product names from best to worst)'',
      ''        - reasons: list of strings (key reasons for the recommendation)'',
      ''        '',
      ''        Consider factors like value, specs, reliability, and user needs.'']"

definition openai_kwargs :: "judge_agent \<Rightarrow> ustring \<Rightarrow> json \<Rightarrow> bool \<Rightarrow> chat_kwargs" where
  "openai_kwargs self system_prompt user_prompt json_mode =
     (let messages = [(str ''system'', JStr system_prompt), (str ''user'', user_prompt)]
      in \<lparr>k_model = model self, k_messages = messages,
          k_temperature = (if json_mode then 3 / 10 else 2 / 10),
          k_response_format = (if json_mode then Some (str ''json_object'') else None)\<rparr>)"

definition call_openai ::
  "'w env \<Rightarrow> judge_agent \<Rightarrow> ustring \<Rightarrow> json \<Rightarrow> bool \<Rightarrow> 'w \<Rightarrow> ustring \<times> 'w" where
  "call_openai env self system_prompt user_prompt json_mode w =
     (let kwargs = openai_kwargs self system_prompt user_prompt json_mode;
          (outcome, w') = chat_create env (api_key self) kwargs w
      in (case outcome of ChatRaised \<Rightarrow> [] | ChatContent content \<Rightarrow> strip content, w'))"

definition extract_product_info ::
  "'w env \<Rightarrow> judge_agent \<Rightarrow> json \<Rightarrow> 'w state \<Rightarrow> ustring \<times> 'w state" where
  "extract_product_info env self sn st =
     (let (text, w') = call_openai env self extract_system_prompt sn False (world st)
      in (text, \<lparr>world = w', calls = calls st @ [ExtractCall sn]\<rparr>))"

definition fallback_verdict :: json where
  "fallback_verdict =
     JObject [(str ''winner'', JStr (str ''Unable to determine'')),
              (str ''ranking'', JArray []),
              (str ''reasons'', JArray [JStr (str ''Error parsing recommendation'')])]"

definition judge_user_prompt :: "'w env \<Rightarrow> ustring \<Rightarrow> product list \<Rightarrow> ustring" where
  "judge_user_prompt env question products =
     str ''Question: '' @ question @ [10, 10] @ str ''Product briefs:'' @ [10] @
     json_dumps env (JArray (map product_json products))"

text \<open>
  \<open>judge_products\<close> returns whatever \<open>json.loads\<close> made of the response, of any JSON type.
  Only \<open>json.JSONDecodeError\<close> is caught: the other two exceptions of \<open>json.loads\<close> leave
  \<open>judge_products\<close> as they are.
\<close>

definition judge_products ::
  "'w env \<Rightarrow> judge_agent \<Rightarrow> ustring \<Rightarrow> product list \<Rightarrow> 'w state \<Rightarrow>
     (py_error + json) \<times> 'w state" where
  "judge_products env self question products st =
     (let (response, w') =
            call_openai env self judge_system_prompt
              (JStr (judge_user_prompt env question products)) True (world st)
      in (case json_loads (limits env) response of
            Inr verdict \<Rightarrow> Inr verdict
          | Inl e \<Rightarrow> if e = JSONDecodeError then Inr fallback_verdict else Inl e,
          \<lparr>world = w', calls = calls st @ [JudgeCall question products]\<rparr>))"

subsection \<open>ShopSage\<close>

record shop_sage =
  scout :: scout_agent
  judge :: judge_agent

definition ShopSage_init :: "'w env \<Rightarrow> py_error + shop_sage" where
  "ShopSage_init env =
     (case ScoutAgent_init env of
        Inl e \<Rightarrow> Inl e
      | Inr s \<Rightarrow>
          (case JudgeAgent_init env of
             Inl e \<Rightarrow> Inl e
           | Inr j \<Rightarrow> Inr \<lparr>scout = s, judge = j\<rparr>))"

record pipeline_result =
  query :: ustring
  winner :: json
  ranking :: json
  reasons :: json
  sources :: "product list"

text \<open>
  The first block of \<open>run_pipeline\<close>: the pattern is tried on the question and the hits
  are gathered by two searches or by one. \<open>.strip()\<close> on a group that took no part
  would raise \<open>AttributeError\<close>.
\<close>

definition gather_hits ::
  "'w env \<Rightarrow> shop_sage \<Rightarrow> ustring \<Rightarrow> 'w state \<Rightarrow> (py_error + hit list) \<times> 'w state" where
  "gather_hits env self question st =
     (case re_search vs_pattern question of
        Some vs_match \<Rightarrow>
          (case group question vs_match 1 of
             None \<Rightarrow> (Inl AttributeError, st)
           | Some g1 \<Rightarrow>
               (case group question vs_match 2 of
                  None \<Rightarrow> (Inl AttributeError, st)
                | Some g2 \<Rightarrow>
                    (let product_a = strip g1;
                         product_b = strip g2;
                         (hits_a, st1) = search env (scout self) product_a 4 st;
                         (hits_b, st2) = search env (scout self) product_b 4 st1
                     in (Inr (hits_a @ hits_b), st2))))
      | None \<Rightarrow>
          (let (hits, st1) = search env (scout self) question 8 st
           in (Inr hits, st1)))"

text \<open>The enrichment loop of \<open>run_pipeline\<close>, with \<open>enriched_products\<close> as its accumulator.\<close>

fun enrich_products ::
  "'w env \<Rightarrow> judge_agent \<Rightarrow> product list \<Rightarrow> hit list \<Rightarrow> 'w state \<Rightarrow> product list \<times> 'w state"
where
  "enrich_products env j enriched_products [] st = (enriched_products, st)"
| "enrich_products env j enriched_products (h # hits) st =
     (let (s, st1) = extract_product_info env j (snippet h) st
      in enrich_products env j
           (enriched_products @
              [\<lparr>title = title h, url = url h, snippet = snippet h, summary = s\<rparr>])
           hits st1)"

text \<open>The \<open>return\<close> of \<open>run_pipeline\<close>: three \<open>verdict.get\<close> calls and the slice \<open>[:4]\<close>.\<close>

definition assemble_result ::
  "ustring \<Rightarrow> json \<Rightarrow> product list \<Rightarrow> py_error + pipeline_result" where
  "assemble_result question verdict enriched_products =
     (case py_get verdict (str ''winner'') (JStr []) of
        Inl e \<Rightarrow> Inl e
      | Inr w \<Rightarrow>
          (case py_get verdict (str ''ranking'') (JArray []) of
             Inl e \<Rightarrow> Inl e
           | Inr rk \<Rightarrow>
               (case py_get verdict (str ''reasons'') (JArray []) of
                  Inl e \<Rightarrow> Inl e
                | Inr rs \<Rightarrow>
                    Inr \<lparr>query = question, winner = w, ranking = rk, reasons = rs,
                         sources = take 4 enriched_products\<rparr>)))"

definition run_pipeline ::
  "'w env \<Rightarrow> shop_sage \<Rightarrow> ustring \<Rightarrow> 'w state \<Rightarrow> (py_error + pipeline_result) \<times> 'w state"
where
  "run_pipeline env self question st =
     (case gather_hits env self question st of
        (Inl e, st1) \<Rightarrow> (Inl e, st1)
      | (Inr hits, st1) \<Rightarrow>
          (let (enriched_products, st2) = enrich_products env (judge self) [] hits st1;
               (judged, st3) = judge_products env (judge self) question enriched_products st2
           in (case judged of
                 Inl e \<Rightarrow> Inl e
               | Inr verdict \<Rightarrow> assemble_result question verdict enriched_products,
               st3)))"

subsection \<open>The stand-alone \<open>enrich\<close>\<close>

text \<open>
  The module-level \<open>enrich(hits)\<close> writes into the dicts it is given and returns the very
  list it received, so the caller's objects matter: a hit is a reference into a store of
  dicts, and the store is returned updated. \<open>hit["snippet"]\<close> raises \<open>KeyError\<close> on a dict
  without the key; the hits written before stay written.
\<close>

type_synonym pydict = "(ustring \<times> json) list"

type_synonym store = "nat \<Rightarrow> pydict"

text \<open>
  The dict that \<open>search\<close> builds for a hit, and the enrichment loop of \<open>run_pipeline\<close>
  (lines 210 to 218) on hits that are references into a store: \<open>hit["snippet"]\<close> is read
  for the summary, then \<open>hit["title"]\<close>, \<open>hit["url"]\<close> and \<open>hit["snippet"]\<close> for the new
  dict. The loop has no assignment to a hit; the store is returned so that this can be
  stated.
\<close>

definition hit_dict :: "hit \<Rightarrow> pydict" where
  "hit_dict x = [(str ''title'', title x), (str ''url'', url x), (str ''snippet'', snippet x)]"

fun enrich_products_at ::
  "'w env \<Rightarrow> judge_agent \<Rightarrow> product list \<Rightarrow> nat list \<Rightarrow> store \<Rightarrow> 'w state \<Rightarrow>
     (py_error + product list) \<times> store \<times> 'w state"
where
  "enrich_products_at env j enriched_products [] h st = (Inr enriched_products, h, st)"
| "enrich_products_at env j enriched_products (r # rs) h st =
     (case map_of (h r) (str ''snippet'') of
        None \<Rightarrow> (Inl KeyError, h, st)
      | Some sn \<Rightarrow>
          (let (s, st1) = extract_product_info env j sn st
           in case map_of (h r) (str ''title'') of
                None \<Rightarrow> (Inl KeyError, h, st1)
              | Some t \<Rightarrow>
                  (case map_of (h r) (str ''url'') of
                     None \<Rightarrow> (Inl KeyError, h, st1)
                   | Some u \<Rightarrow>
                       enrich_products_at env j
                         (enriched_products @
                            [\<lparr>title = t, url = u, snippet = sn, summary = s\<rparr>])
                         rs h st1)))"

fun enrich_loop ::
  "'w env \<Rightarrow> judge_agent \<Rightarrow> nat list \<Rightarrow> store \<Rightarrow> 'w state \<Rightarrow> py_error option \<times> store \<times> 'w state"
where
  "enrich_loop env j [] h st = (None, h, st)"
| "enrich_loop env j (r # rs) h st =
     (case map_of (h r) (str ''snippet'') of
        None \<Rightarrow> (Some KeyError, h, st)
      | Some sn \<Rightarrow>
          (let (s, st1) = extract_product_info env j sn st
           in enrich_loop env j rs (h(r := AList.update (str ''summary'') (JStr s) (h r))) st1))"

definition enrich ::
  "'w env \<Rightarrow> nat list \<Rightarrow> store \<Rightarrow> 'w state \<Rightarrow> (py_error + nat list) \<times> store \<times> 'w state" where
  "enrich env hits h st =
     (case JudgeAgent_init env of
        Inl e \<Rightarrow> (Inl e, h, st)
      | Inr j \<Rightarrow>
          (case enrich_loop env j hits h st of
             (Some e, h', st') \<Rightarrow> (Inl e, h', st')
           | (None, h', st') \<Rightarrow> (Inr hits, h', st')))"

section \<open>Concrete backends for worked examples\<close>

text \<open>
  An agent pair with its credentials, a run that starts with no calls made, and backends
  that always give the same three answers: one to a search, one to a summarising request
  and one to a judging request (the one that asks for a JSON object). The interpreter
  allows 1000 nested containers and 4300 digits.
\<close>

definition demo_sage :: shop_sage where
  "demo_sage =
     \<lparr>scout = \<lparr>tavily_api_key = str ''tvly-demo'', base_url = str ''https://api.tavily.com''\<rparr>,
      judge = \<lparr>api_key = str ''sk-demo'', model = str ''gpt-4o-mini''\<rparr>\<rparr>"

definition demo_limits :: py_limits where
  "demo_limits = \<lparr>max_depth = 1000, max_str_digits = 4300\<rparr>"

definition fixed_env :: "http_outcome \<Rightarrow> chat_outcome \<Rightarrow> chat_outcome \<Rightarrow> unit env" where
  "fixed_env found summarised judged =
     \<lparr>getenv = [str ''TAVILY_API_KEY'' \<mapsto> str ''tvly-demo'',
                 str ''OPENAI_API_KEY'' \<mapsto> str ''sk-demo''],
      limits = demo_limits,
      http_post = (\<lambda>u p w. (found, w)),
      chat_create = (\<lambda>k kw w. (if k_response_format kw = None then summarised else judged, w)),
      json_dumps = (\<lambda>v. [])\<rparr>"

definition fresh :: "unit state" where
  "fresh = \<lparr>world = (), calls = []\<rparr>"

text \<open>
  Search bodies for the examples: one with five results, one whose single result has a
  content of 501 characters. \<open>five_hits\<close> is what \<open>search\<close> makes of the first, and
  \<open>five_products\<close> what enrichment makes of those when every summary is the same text.
  \<open>demo_store\<close> holds the dict of \<open>demo_hit\<close> at every reference.
\<close>

definition long_result :: ustring where
  \<open>long_result = str ''{"results": [{"title": "T", "content": "'' @ replicate 501 120 @ str ''"}]}''\<close>

definition demo_store :: store where
  "demo_store =
     (\<lambda>r. [(str ''title'', JStr (str ''A'')), (str ''url'', JStr (str ''a'')),
           (str ''snippet'', JStr (str ''text''))])"

definition demo_hit :: hit where
  "demo_hit = \<lparr>title = JStr (str ''A''), url = JStr (str ''a''), snippet = JStr (str ''text'')\<rparr>"

definition five_results :: ustring where
  \<open>five_results = str ''{"results": [{"title": "A", "content": "a"}, {"title": "B"}, {"title": "C"}, {"title": "D"}, {"title": "E", "url": "e"}]}''\<close>

definition five_hits :: "hit list" where
  "five_hits =
     [\<lparr>title = JStr (str ''A''), url = JStr [], snippet = JStr (str ''a'')\<rparr>,
      \<lparr>title = JStr (str ''B''), url = JStr [], snippet = JStr []\<rparr>,
      \<lparr>title = JStr (str ''C''), url = JStr [], snippet = JStr []\<rparr>,
      \<lparr>title = JStr (str ''D''), url = JStr [], snippet = JStr []\<rparr>,
      \<lparr>title = JStr (str ''E''), url = JStr (str ''e''), snippet = JStr []\<rparr>]"

definition five_products :: "ustring \<Rightarrow> product list" where
  "five_products s = map (\<lambda>h. hit.extend h (product.fields s)) five_hits"

section \<open>Properties of \<open>strip\<close>\<close>

text \<open>
  \<open>strip\<close> removes a run of white space from the front and one from the back, and what
  is left neither begins nor ends with white space; a string that does not begin or end
  with white space is returned as it is.
\<close>

lemma strip_decomposes:
  "\<exists>l r. s = l @ strip s @ r \<and> (\<forall>c\<in>set l. is_space c) \<and> (\<forall>c\<in>set r. is_space c)"
proof -
  let ?t = "dropWhile is_space s"
  have 1: "s = takeWhile is_space s @ ?t" by simp
  have "takeWhile is_space (rev ?t) @ dropWhile is_space (rev ?t) = rev ?t"
    by (rule takeWhile_dropWhile_id)
  then have "rev (takeWhile is_space (rev ?t) @ dropWhile is_space (rev ?t)) = rev (rev ?t)"
    by (rule arg_cong)
  then have "rev (dropWhile is_space (rev ?t)) @ rev (takeWhile is_space (rev ?t)) = ?t"
    by (simp only: rev_append rev_rev_ident)
  then have 2: "?t = strip s @ rev (takeWhile is_space (rev ?t))"
    by (simp only: strip_def)
  have 3: "\<forall>c\<in>set (takeWhile is_space s). is_space c"
    by (auto dest: set_takeWhileD)
  have 4: "\<forall>c\<in>set (rev (takeWhile is_space (rev ?t))). is_space c"
    by (auto dest: set_takeWhileD)
  from 1 2 have "s = takeWhile is_space s @ strip s @ rev (takeWhile is_space (rev ?t))"
    by simp
  with 3 4 show ?thesis by blast
qed

lemma strip_trimmed:
  "strip s = [] \<or> (\<not> is_space (hd (strip s)) \<and> \<not> is_space (last (strip s)))"
proof (cases "strip s = []")
  case True
  then show ?thesis by simp
next
  case False
  let ?t = "dropWhile is_space s"
  let ?u = "dropWhile is_space (rev ?t)"
  from False have u: "?u \<noteq> []" by (simp add: strip_def)
  then have "\<not> is_space (hd ?u)" by (rule hd_dropWhile)
  moreover have "last (strip s) = hd ?u"
    using u by (simp add: strip_def last_rev)
  ultimately have l: "\<not> is_space (last (strip s))" by simp
  have t: "?t \<noteq> []"
  proof
    assume e: "?t = []"
    have "?u = []" by (simp only: e rev.simps dropWhile.simps)
    with u show False by (rule notE)
  qed
  then have nh: "\<not> is_space (hd ?t)" by (rule hd_dropWhile)
  have "takeWhile is_space (rev ?t) @ ?u = rev ?t" by (rule takeWhile_dropWhile_id)
  then have "rev (takeWhile is_space (rev ?t) @ ?u) = rev (rev ?t)" by (rule arg_cong)
  then have "rev ?u @ rev (takeWhile is_space (rev ?t)) = ?t"
    by (simp only: rev_append rev_rev_ident)
  then have "strip s @ rev (takeWhile is_space (rev ?t)) = ?t" by (simp only: strip_def)
  then have "hd (strip s @ rev (takeWhile is_space (rev ?t))) = hd ?t" by (rule arg_cong)
  with False have "hd (strip s) = hd ?t" by simp
  with nh l show ?thesis by simp
qed

lemma strip_unchanged:
  assumes "s \<noteq> []" "\<not> is_space (hd s)" "\<not> is_space (last s)"
  shows "strip s = s"
proof -
  from assms(1,2) have 1: "dropWhile is_space s = s" by (cases s) simp_all
  from assms(1,3) have "dropWhile is_space (rev s) = rev s"
    by (cases "rev s") (simp_all add: last_rev [symmetric] hd_rev)
  with 1 show ?thesis by (simp add: strip_def)
qed

text \<open>
  So \<open>strip s\<close> is \<open>s\<close> stripped of surrounding white space, and nothing else is.
\<close>

lemma strip_stripped: "stripped_of (strip s) s"
  unfolding stripped_of_def using strip_decomposes [of s] strip_trimmed [of s] by blast

lemma dropWhile_run: "\<forall>c\<in>set l. P c \<Longrightarrow> \<not> P x \<Longrightarrow> dropWhile P (l @ x # xs) = x # xs"
  by (induction l) auto

lemma stripped_is_strip:
  assumes "stripped_of t s"
  shows "t = strip s"
proof -
  from assms obtain l r where s: "s = l @ t @ r" and l: "\<forall>c\<in>set l. is_space c"
    and r: "\<forall>c\<in>set r. is_space c"
    and t: "t = [] \<or> (\<not> is_space (hd t) \<and> \<not> is_space (last t))"
    unfolding stripped_of_def by blast
  show ?thesis
  proof (cases "t = []")
    case True
    with s l r have "\<forall>c\<in>set s. is_space c" by auto
    then have d: "dropWhile is_space s = []" by simp
    have "strip s = []" by (simp only: strip_def d rev.simps dropWhile.simps)
    with True show ?thesis by simp
  next
    case False
    with t have h: "\<not> is_space (hd t)" and e: "\<not> is_space (last t)" by simp_all
    from False obtain x xs where tx: "t = x # xs" by (cases t) auto
    with h have x: "\<not> is_space x" by simp
    have 1: "dropWhile is_space s = t @ r"
      using dropWhile_run [OF l x, of "xs @ r"] unfolding s tx by simp
    from False obtain y ys where ty: "rev t = y # ys" by (cases "rev t") auto
    then have "last t = y" using False by (metis last_rev list.sel(1) rev_rev_ident hd_rev)
    with e have y: "\<not> is_space y" by simp
    have rr: "\<forall>c\<in>set (rev r). is_space c" using r by simp
    have 2: "dropWhile is_space (rev r @ rev t) = rev t"
      using dropWhile_run [OF rr y, of ys] unfolding ty by simp
    show ?thesis
      by (simp add: strip_def 1 2)
  qed
qed

section \<open>Properties of the decoder\<close>

text \<open>
  Every successful parse consumes at least one character, so the length tests in
  \<open>parse_items\<close> and \<open>parse_pairs\<close> always succeed. A run of characters that are neither a
  quote, a backslash nor a control character is taken into a string as it is.
\<close>

lemma scan_integer_nonempty: "scan_integer s = Some ip \<Longrightarrow> ip \<noteq> []"
  by (auto simp: scan_integer_def Let_def split: list.splits if_splits)

lemma match_number_length:
  assumes "match_number md s = Inr (v, r)"
  shows "length r < length s"
proof -
  from assms obtain ip where ip: "scan_integer s = Some ip"
    by (auto simp: match_number_def split: option.splits)
  then have ne: "ip \<noteq> []" by (rule scan_integer_nonempty)
  from ip have "s \<noteq> []"
    by (auto simp: scan_integer_def)
  moreover from assms ip obtain n where "r = drop n s" "0 < n"
    using ne by (auto simp: match_number_def Let_def split: if_splits)
  ultimately show ?thesis by (cases s) auto
qed

lemma match_constant_length:
  assumes "match_constant s = Some (v, r)"
  shows "length r < length s"
proof -
  from assms have "s \<noteq> []"
    by (auto simp: match_constant_def str_def)
  moreover from assms obtain n where "r = drop n s" "0 < n"
    by (auto simp: match_constant_def split: if_splits)
  ultimately show ?thesis by (cases s) auto
qed

lemma parse_lengths:
  "(\<forall>v r. parse_value md room s = Inr (v, r) \<longrightarrow> length r < length s)"
  "(\<forall>v r. parse_items md' room' acc s' = Inr (v, r) \<longrightarrow> length r < length s')"
  "(\<forall>v r. parse_pairs md'' room'' acc' s'' = Inr (v, r) \<longrightarrow> length r < length s'')"
proof (induction md room s and md' room' acc s' and md'' room'' acc' s''
    rule: parse_value_parse_items_parse_pairs.induct)
  case (1 md room s)
  show ?case
  proof (intro allI impI)
    fix v r assume a: "parse_value md room s = Inr (v, r)"
    then obtain c cs where s: "s = c # cs" by (cases s) auto
    show "length r < length s"
    proof (cases "c = 34")
      case True
      with a s show ?thesis
        by (auto split: option.splits dest: scanstring_length)
    next
      case n34: False
      show ?thesis
      proof (cases "c = 123")
        case True
        with a s n34 have room: "room \<noteq> 0" by (auto split: if_splits)
        with a s n34 True obtain d r' where d: "skip_ws cs = d # r'"
          by (cases "skip_ws cs") auto
        have le: "length r' < length cs" using d by (rule skip_ws_Cons_length)
        show ?thesis
        proof (cases "d = 125")
          case True
          with a s n34 \<open>c = 123\<close> room d le show ?thesis by auto
        next
          case False
          with a s n34 \<open>c = 123\<close> room d
          have "parse_pairs md (room - 1) [] (d # r') = Inr (v, r)" by auto
          with "1.IH"(1) [OF s n34 \<open>c = 123\<close> room d False]
          have "length r < length (d # r')" by blast
          with le s show ?thesis by simp
        qed
      next
        case n123: False
        show ?thesis
        proof (cases "c = 91")
          case True
          with a s n34 n123 have room: "room \<noteq> 0" by (auto split: if_splits)
          with a s n34 n123 True obtain d r' where d: "skip_ws cs = d # r'"
            by (cases "skip_ws cs") auto
          have le: "length r' < length cs" using d by (rule skip_ws_Cons_length)
          show ?thesis
          proof (cases "d = 93")
            case True
            with a s n34 n123 \<open>c = 91\<close> room d le show ?thesis by auto
          next
            case False
            with a s n34 n123 \<open>c = 91\<close> room d
            have "parse_items md (room - 1) [] (d # r') = Inr (v, r)" by auto
            with "1.IH"(2) [OF s n34 n123 \<open>c = 91\<close> room d False]
            have "length r < length (d # r')" by blast
            with le s show ?thesis by simp
          qed
        next
          case False
          with a s n34 n123 show ?thesis
            by (auto split: option.splits dest: match_constant_length match_number_length)
        qed
      qed
    qed
  qed
next
  case (2 md room acc s)
  show ?case
  proof (intro allI impI)
    fix v r assume a: "parse_items md room acc s = Inr (v, r)"
    then obtain x r1 where p: "parse_value md room s = Inr (x, r1)"
      by (cases "parse_value md room s") auto
    with a have lt: "length r1 < length s" by (auto split: if_splits)
    from a p lt obtain d r' where d: "skip_ws r1 = d # r'"
      by (cases "skip_ws r1") auto
    have le: "length r' < length r1" using d by (rule skip_ws_Cons_length)
    show "length r < length s"
    proof (cases "d = 93")
      case True
      with a p lt d le show ?thesis by auto
    next
      case False
      with a p lt d have d44: "d = 44"
        and rec: "parse_items md room (acc @ [x]) (skip_ws r') = Inr (v, r)"
        by (auto split: if_splits)
      from "2.IH"(2) [OF p refl lt d False d44] rec
      have "length r < length (skip_ws r')" by blast
      with skip_ws_length [of r'] le lt show ?thesis by simp
    qed
  qed
next
  case (3 md room acc s)
  show ?case
  proof (intro allI impI)
    fix v r assume a: "parse_pairs md room acc s = Inr (v, r)"
    then obtain q cs where s: "s = q # cs" by (cases s) auto
    with a have q: "q = 34" by (auto split: if_splits)
    from a s q obtain k r0 where k: "scanstring [] cs = Some (k, r0)"
      by (cases "scanstring [] cs") auto
    from a s q k obtain colon r1 where c: "skip_ws r0 = colon # r1"
      by (cases "skip_ws r0") auto
    from a s q k c have c58: "colon = 58" by (auto split: if_splits)
    from a s q k c c58 obtain x r2 where p: "parse_value md room (skip_ws r1) = Inr (x, r2)"
      by (cases "parse_value md room (skip_ws r1)") auto
    from a s q k c c58 p have lt: "length r2 < length s" by (auto split: if_splits)
    from a s q k c c58 p lt obtain d r3 where d: "skip_ws r2 = d # r3"
      by (cases "skip_ws r2") auto
    have le: "length r3 < length r2" using d by (rule skip_ws_Cons_length)
    show "length r < length s"
    proof (cases "d = 125")
      case True
      with a s q k c c58 p lt d le show ?thesis by auto
    next
      case False
      with a s q k c c58 p lt d have d44: "d = 44"
        and rec: "parse_pairs md room (AList.update k x acc) (skip_ws r3) = Inr (v, r)"
        by (auto split: if_splits)
      from "3.IH"(2) [OF s q k refl c c58 p refl _ d False d44] lt s rec
      have "length r < length (skip_ws r3)" by blast
      with skip_ws_length [of r3] le lt show ?thesis by simp
    qed
  qed
qed

lemma parse_value_length: "parse_value md room s = Inr (v, r) \<Longrightarrow> length r < length s"
  using parse_lengths(1) by blast

lemma scanstring_plain:
  "\<forall>c\<in>set xs. c \<noteq> 34 \<and> c \<noteq> 92 \<and> 32 \<le> c \<Longrightarrow>
     scanstring acc (xs @ rest) = scanstring (acc @ xs) rest"
  by (induction xs arbitrary: acc) auto

text \<open>
  The two limits: one container more than there is room for, and an integer of one digit
  more than allowed inside an array that is never closed. Neither text is JSON, and
  neither is refused with \<open>JSONDecodeError\<close>.
\<close>

lemma too_deep:
  "parse_value md room (replicate (Suc room) 91 @ rest) = Inl RecursionError"
proof (induction room arbitrary: rest)
  case 0
  show ?case by simp
next
  case (Suc room)
  have "skip_ws (replicate (Suc room) 91 @ rest) = 91 # replicate room 91 @ rest"
    by (simp add: skip_ws_def)
  moreover have "parse_items md room [] (91 # replicate room 91 @ rest) = Inl RecursionError"
    using Suc.IH [of rest] by simp
  ultimately show ?case by simp
qed

lemma too_deep_loads:
  "json_loads lims (replicate (Suc (max_depth lims)) 91) = Inl RecursionError"
  using too_deep [of "max_str_digits lims" "max_depth lims" "[]"]
  by (simp add: json_loads_def skip_ws_def)

lemma too_many_digits:
  assumes "max_str_digits lims \<noteq> 0" "max_depth lims \<noteq> 0"
  shows "json_loads lims (91 # 49 # replicate (max_str_digits lims) 49) = Inl ValueError"
proof -
  let ?n = "max_str_digits lims"
  have i: "scan_integer (49 # replicate ?n 49) = Some (49 # replicate ?n 49)"
    by (simp add: scan_integer_def is_digit_def takeWhile_replicate)
  have c: "match_constant (49 # replicate ?n 49) = None"
    by (simp add: match_constant_def str_def)
  have n: "match_number ?n (49 # replicate ?n 49) = Inl ValueError"
    using assms(1) by (simp add: match_number_def i scan_fraction_def scan_exponent_def is_digit_def)
  have "parse_value ?n (max_depth lims - 1) (49 # replicate ?n 49) = Inl ValueError"
    using c n by simp
  then have "parse_items ?n (max_depth lims - 1) [] (49 # replicate ?n 49) = Inl ValueError"
    by simp
  then show ?thesis
    using assms(2) by (simp add: json_loads_def skip_ws_def)
qed

section \<open>Properties of the matcher\<close>

text \<open>
  A successful match has closed every group whose closing node lies on the top level of
  the pattern, so both groups of \<open>vs_pattern\<close> always take part in a match.
\<close>

lemma re_match_spans_mono:
  "re_match ns inp pos c = Some (e, c') \<Longrightarrow> spans c g \<noteq> None \<Longrightarrow> spans c' g \<noteq> None"
proof (induction ns inp pos c arbitrary: e c' rule: re_match.induct)
  case (1 inp pos c)
  then show ?case by simp
next
  case (2 a ns inp pos c)
  then show ?case by (cases inp) (simp_all split: if_splits)
next
  case (3 a ns inp pos c)
  then show ?case by (cases inp) (simp_all split: if_splits option.splits)
next
  case (4 a ns inp pos c)
  then show ?case by (cases inp) (simp_all split: if_splits)
next
  case (5 a ns inp pos c)
  then show ?case by (cases inp) (simp_all split: if_splits option.splits)
next
  case (6 a ns inp pos c)
  then show ?case by (cases inp) (simp_all split: if_splits)
next
  case (7 a ns inp pos c)
  then show ?case by (cases inp) (simp_all split: if_splits option.splits)
next
  case (8 g ns inp pos c)
  then show ?case by simp
next
  case (9 g' ns inp pos c)
  then show ?case by (simp split: if_splits)
next
  case (10 ns inp pos c)
  then show ?case by (simp split: if_splits)
next
  case (11 p q ns inp pos c)
  then show ?case by (simp split: option.splits)
qed

lemma re_match_closed:
  "re_match ns inp pos c = Some (e, c') \<Longrightarrow> Close g \<in> set ns \<Longrightarrow> spans c' g \<noteq> None"
proof (induction ns inp pos c arbitrary: e c' rule: re_match.induct)
  case (1 inp pos c)
  then show ?case by simp
next
  case (2 a ns inp pos c)
  then show ?case by (cases inp) (simp_all split: if_splits)
next
  case (3 a ns inp pos c)
  then show ?case by (cases inp) (simp_all split: if_splits option.splits)
next
  case (4 a ns inp pos c)
  then show ?case by (cases inp) (simp_all split: if_splits)
next
  case (5 a ns inp pos c)
  then show ?case by (cases inp) (simp_all split: if_splits option.splits)
next
  case (6 a ns inp pos c)
  then show ?case by (cases inp) (simp_all split: if_splits)
next
  case (7 a ns inp pos c)
  then show ?case by (cases inp) (simp_all split: if_splits option.splits)
next
  case (8 g' ns inp pos c)
  then show ?case by simp
next
  case (9 g' ns inp pos c)
  show ?case
  proof (cases "g' = g")
    case True
    have "spans (c\<lparr>spans := (spans c)(g \<mapsto> (starts c g, pos))\<rparr>) g \<noteq> None" by simp
    moreover have "re_match ns inp pos (c\<lparr>spans := (spans c)(g \<mapsto> (starts c g, pos))\<rparr>) = Some (e, c')"
      using "9.prems"(1) True by simp
    ultimately show ?thesis by (rule re_match_spans_mono [rotated])
  next
    case False
    with 9 show ?thesis by simp
  qed
next
  case (10 ns inp pos c)
  then show ?case by (simp split: if_splits)
next
  case (11 p q ns inp pos c)
  then show ?case by (simp split: option.splits)
qed

lemma re_search_from_closed:
  "re_search_from p s pos = Some mt \<Longrightarrow> Close g \<in> set p \<Longrightarrow> spans (snd (snd mt)) g \<noteq> None"
proof (induction p s pos rule: re_search_from.induct)
  case (1 p pos)
  then show ?case by (auto split: option.splits dest: re_match_closed)
next
  case (2 p x xs pos)
  then show ?case by (auto split: option.splits dest: re_match_closed)
qed

lemma vs_groups_present:
  assumes "re_search vs_pattern q = Some mt"
  shows "\<exists>a b. group q mt 1 = Some a \<and> group q mt 2 = Some b"
proof -
  have "Close 1 \<in> set vs_pattern" "Close 2 \<in> set vs_pattern"
    by (simp_all add: vs_pattern_def)
  then have "spans (snd (snd mt)) 1 \<noteq> None" "spans (snd (snd mt)) 2 \<noteq> None"
    using assms re_search_from_closed [of vs_pattern q 0 mt]
    by (simp_all add: re_search_def)
  then show ?thesis by (auto simp: group_def)
qed

text \<open>
  The matcher succeeds exactly where the priority-free reading has a match, so
  \<open>re.search\<close> finds \<open>vs_pattern\<close> in a question exactly when the question has the shape
  \<open>vs_shape\<close>.
\<close>

lemma re_match_sound:
  "re_match ns inp pos c \<noteq> None \<Longrightarrow> matches_at ns inp"
proof (induction ns inp pos c rule: re_match.induct)
  case (1 inp pos c)
  show ?case by (rule m_Nil)
next
  case (2 a ns inp pos c)
  then show ?case
    by (cases inp) (auto split: if_splits intro: m_Chr)
next
  case (3 a ns inp pos c)
  show ?case
  proof (cases inp)
    case Nil
    with 3 show ?thesis by (auto intro: m_Opt_skip)
  next
    case (Cons x xs)
    show ?thesis
    proof (cases "accepts a x")
      case True
      show ?thesis
      proof (cases "re_match ns xs (Suc pos) c")
        case None
        with 3 Cons True show ?thesis by (auto intro: m_Opt_skip)
      next
        case (Some r2)
        then have "re_match ns xs (Suc pos) c \<noteq> None" by simp
        from "3.IH"(2) [OF Cons True this] have "matches_at ns xs" .
        with Cons True show ?thesis by (auto intro: m_Opt_take)
      qed
    next
      case False
      with 3 Cons show ?thesis by (auto intro: m_Opt_skip)
    qed
  qed
next
  case (4 a ns inp pos c)
  then show ?case
    by (cases inp) (auto split: if_splits intro: m_Plus)
next
  case (5 a ns inp pos c)
  show ?case
  proof (cases inp)
    case Nil
    with 5 show ?thesis by (auto intro: m_Star_skip)
  next
    case (Cons x xs)
    show ?thesis
    proof (cases "accepts a x")
      case True
      show ?thesis
      proof (cases "re_match (Star a # ns) xs (Suc pos) c")
        case None
        with 5 Cons True show ?thesis by (auto intro: m_Star_skip)
      next
        case (Some r2)
        then have "re_match (Star a # ns) xs (Suc pos) c \<noteq> None" by simp
        from "5.IH"(2) [OF Cons True this] have "matches_at (Star a # ns) xs" .
        with Cons True show ?thesis by (auto intro: m_Star_take)
      qed
    next
      case False
      with 5 Cons show ?thesis by (auto intro: m_Star_skip)
    qed
  qed
next
  case (6 a ns inp pos c)
  then show ?case
    by (cases inp) (auto split: if_splits intro: m_LazyPlus)
next
  case (7 a ns inp pos c)
  show ?case
  proof (cases "re_match ns inp pos c")
    case (Some r1)
    then have "re_match ns inp pos c \<noteq> None" by simp
    from "7.IH"(1) [OF this] show ?thesis by (rule m_LazyStar_skip)
  next
    case None
    with "7.prems" obtain x xs where i: "inp = x # xs" "accepts a x"
      "re_match (LazyStar a # ns) xs (Suc pos) c \<noteq> None"
      by (cases inp) (simp_all split: if_splits)
    from "7.IH"(2) [OF None i] have "matches_at (LazyStar a # ns) xs" .
    with i show ?thesis by (auto intro: m_LazyStar_take)
  qed
next
  case (8 g ns inp pos c)
  then show ?case by (auto intro: m_Open)
next
  case (9 g' ns inp pos c)
  then show ?case by (auto intro: m_Close)
next
  case (10 ns inp pos c)
  then show ?case by (auto split: if_splits intro: m_Eos)
next
  case (11 p q ns inp pos c)
  show ?case
  proof (cases "re_match (p @ ns) inp pos c")
    case (Some r1)
    then have "re_match (p @ ns) inp pos c \<noteq> None" by simp
    from "11.IH"(1) [OF this] show ?thesis by (rule m_Alt_left)
  next
    case None
    with "11.prems" have "re_match (q @ ns) inp pos c \<noteq> None" by simp
    from "11.IH"(2) [OF None this] show ?thesis by (rule m_Alt_right)
  qed
qed

lemma re_match_complete:
  "matches_at ns inp \<Longrightarrow> \<exists>r. re_match ns inp pos c = Some r"
proof (induction ns inp arbitrary: pos c rule: matches_at.induct)
  case (m_Nil inp)
  show ?case by simp
next
  case (m_Chr a x ns xs)
  then show ?case by simp
next
  case (m_Opt_skip ns inp a)
  then show ?case by (cases inp) (auto split: option.splits)
next
  case (m_Opt_take a x ns xs)
  from m_Opt_take.IH [of "Suc pos" c] obtain r where "re_match ns xs (Suc pos) c = Some r" by blast
  with m_Opt_take.hyps(1) show ?case by simp
next
  case (m_Plus a x ns xs)
  then show ?case by simp
next
  case (m_Star_skip ns inp a)
  then show ?case by (cases inp) (auto split: option.splits)
next
  case (m_Star_take a x ns xs)
  from m_Star_take.IH [of "Suc pos" c] obtain r where
    "re_match (Star a # ns) xs (Suc pos) c = Some r" by blast
  with m_Star_take.hyps(1) show ?case by simp
next
  case (m_LazyPlus a x ns xs)
  then show ?case by simp
next
  case (m_LazyStar_skip ns inp a)
  from m_LazyStar_skip.IH [of pos c] obtain r where "re_match ns inp pos c = Some r" by blast
  then show ?case by simp
next
  case (m_LazyStar_take a x ns xs)
  from m_LazyStar_take.IH [of "Suc pos" c] obtain r where
    "re_match (LazyStar a # ns) xs (Suc pos) c = Some r" by blast
  with m_LazyStar_take.hyps(1) show ?case
    by (cases "re_match ns (x # xs) pos c") simp_all
next
  case (m_Open ns inp g)
  then show ?case by simp
next
  case (m_Close ns inp g)
  then show ?case by simp
next
  case (m_Eos inp ns)
  then show ?case by auto
next
  case (m_Alt_left p ns inp q)
  from m_Alt_left.IH [of pos c] obtain r where "re_match (p @ ns) inp pos c = Some r" by blast
  then show ?case by simp
next
  case (m_Alt_right q ns inp p)
  from m_Alt_right.IH [of pos c] obtain r where "re_match (q @ ns) inp pos c = Some r" by blast
  then show ?case by (cases "re_match (p @ ns) inp pos c") simp_all
qed

lemma re_match_iff: "(\<exists>r. re_match ns inp pos c = Some r) \<longleftrightarrow> matches_at ns inp"
  using re_match_sound [of ns inp pos c] re_match_complete [of ns inp pos c] by auto

lemma re_search_from_iff:
  "(\<exists>m. re_search_from p s pos = Some m) \<longleftrightarrow> (\<exists>pre suf. s = pre @ suf \<and> matches_at p suf)"
proof (induction p s pos rule: re_search_from.induct)
  case (1 p pos)
  let ?c = "\<lparr>starts = (\<lambda>_. 0), spans = Map.empty\<rparr>"
  have "(\<exists>m. re_search_from p [] pos = Some m) \<longleftrightarrow> (\<exists>r. re_match p [] pos ?c = Some r)"
    by (auto split: option.splits)
  also have "\<dots> \<longleftrightarrow> matches_at p []" by (rule re_match_iff)
  finally show ?case by simp
next
  case (2 p x xs pos)
  let ?c = "\<lparr>starts = (\<lambda>_. 0), spans = Map.empty\<rparr>"
  show ?case
  proof (cases "re_match p (x # xs) pos ?c")
    case (Some r)
    then have "matches_at p (x # xs)" using re_match_sound [of p "x # xs" pos ?c] by simp
    then have "\<exists>pre suf. x # xs = pre @ suf \<and> matches_at p suf"
      by (metis append_Nil)
    moreover have "\<exists>m. re_search_from p (x # xs) pos = Some m"
      using Some by (cases r) simp
    ultimately show ?thesis by blast
  next
    case None
    then have n: "\<not> matches_at p (x # xs)"
      using re_match_complete [of p "x # xs" pos ?c] by auto
    have "(\<exists>m. re_search_from p (x # xs) pos = Some m) \<longleftrightarrow>
          (\<exists>m. re_search_from p xs (Suc pos) = Some m)"
      using None by simp
    also have "\<dots> \<longleftrightarrow> (\<exists>pre suf. xs = pre @ suf \<and> matches_at p suf)"
      using "2.IH" [OF None] .
    also have "\<dots> \<longleftrightarrow> (\<exists>pre suf. x # xs = pre @ suf \<and> matches_at p suf)"
    proof
      assume "\<exists>pre suf. xs = pre @ suf \<and> matches_at p suf"
      then obtain pre suf where "xs = pre @ suf" "matches_at p suf" by blast
      then have "x # xs = (x # pre) @ suf" by simp
      with \<open>matches_at p suf\<close> show "\<exists>pre suf. x # xs = pre @ suf \<and> matches_at p suf" by blast
    next
      assume "\<exists>pre suf. x # xs = pre @ suf \<and> matches_at p suf"
      then obtain pre suf where ps: "x # xs = pre @ suf" "matches_at p suf" by blast
      with n have "pre \<noteq> []" by auto
      then obtain pre' where "pre = x # pre'" "xs = pre' @ suf"
        using ps(1) by (cases pre) auto
      with ps(2) show "\<exists>pre suf. xs = pre @ suf \<and> matches_at p suf" by blast
    qed
    finally show ?thesis .
  qed
qed

inductive_cases m_NilE: "matches_at [] inp"
inductive_cases m_ChrE: "matches_at (Chr a # ns) inp"
inductive_cases m_OptE: "matches_at (Opt a # ns) inp"
inductive_cases m_PlusE: "matches_at (Plus a # ns) inp"
inductive_cases m_StarE: "matches_at (Star a # ns) inp"
inductive_cases m_LazyPlusE: "matches_at (LazyPlus a # ns) inp"
inductive_cases m_LazyStarE: "matches_at (LazyStar a # ns) inp"
inductive_cases m_OpenE: "matches_at (Open g # ns) inp"
inductive_cases m_CloseE: "matches_at (Close g # ns) inp"
inductive_cases m_EosE: "matches_at (Eos # ns) inp"
inductive_cases m_AltE: "matches_at (Alt p q # ns) inp"

lemma matches_Chr:
  "matches_at (Chr a # ns) inp \<longleftrightarrow> (\<exists>x xs. inp = x # xs \<and> accepts a x \<and> matches_at ns xs)"
  by (auto elim: m_ChrE intro: m_Chr)

lemma matches_Opt:
  "matches_at (Opt a # ns) inp \<longleftrightarrow>
     matches_at ns inp \<or> (\<exists>x xs. inp = x # xs \<and> accepts a x \<and> matches_at ns xs)"
  by (auto elim: m_OptE intro: m_Opt_skip m_Opt_take)

lemma matches_Open: "matches_at (Open g # ns) inp \<longleftrightarrow> matches_at ns inp"
  by (auto elim: m_OpenE intro: m_Open)

lemma matches_Close: "matches_at (Close g # ns) inp \<longleftrightarrow> matches_at ns inp"
  by (auto elim: m_CloseE intro: m_Close)

lemma matches_Eos:
  "matches_at (Eos # ns) inp \<longleftrightarrow> (inp = [] \<or> inp = [10]) \<and> matches_at ns inp"
  by (auto elim: m_EosE intro: m_Eos)

lemma matches_Alt:
  "matches_at (Alt p q # ns) inp \<longleftrightarrow> matches_at (p @ ns) inp \<or> matches_at (q @ ns) inp"
  by (auto elim: m_AltE intro: m_Alt_left m_Alt_right)

lemma matches_Nil: "matches_at [] inp"
  by (rule m_Nil)

lemma star_run:
  "matches_at p inp \<Longrightarrow> p = Star a # ns \<Longrightarrow>
     \<exists>u v. inp = u @ v \<and> (\<forall>x\<in>set u. accepts a x) \<and> matches_at ns v"
proof (induction p inp rule: matches_at.induct)
  case (m_Star_skip ns' inp a')
  then have "inp = [] @ inp" "matches_at ns inp" by simp_all
  then show ?case by (metis empty_iff list.set(1))
next
  case (m_Star_take a' x ns' xs)
  then obtain u v where "xs = u @ v" "\<forall>y\<in>set u. accepts a y" "matches_at ns v" by auto
  with m_Star_take have "x # xs = (x # u) @ v" "\<forall>y\<in>set (x # u). accepts a y" by auto
  with \<open>matches_at ns v\<close> show ?case by blast
qed simp_all

lemma run_star:
  "(\<forall>x\<in>set u. accepts a x) \<Longrightarrow> matches_at ns v \<Longrightarrow> matches_at (Star a # ns) (u @ v)"
  by (induction u) (auto intro: m_Star_skip m_Star_take)

lemma matches_Star:
  "matches_at (Star a # ns) inp \<longleftrightarrow>
     (\<exists>u v. inp = u @ v \<and> (\<forall>x\<in>set u. accepts a x) \<and> matches_at ns v)"
  using star_run [of "Star a # ns" inp a ns] run_star [of _ a ns] by auto

lemma lazy_star_run:
  "matches_at p inp \<Longrightarrow> p = LazyStar a # ns \<Longrightarrow>
     \<exists>u v. inp = u @ v \<and> (\<forall>x\<in>set u. accepts a x) \<and> matches_at ns v"
proof (induction p inp rule: matches_at.induct)
  case (m_LazyStar_skip ns' inp a')
  then have "inp = [] @ inp" "matches_at ns inp" by simp_all
  then show ?case by (metis empty_iff list.set(1))
next
  case (m_LazyStar_take a' x ns' xs)
  then obtain u v where "xs = u @ v" "\<forall>y\<in>set u. accepts a y" "matches_at ns v" by auto
  with m_LazyStar_take have "x # xs = (x # u) @ v" "\<forall>y\<in>set (x # u). accepts a y" by auto
  with \<open>matches_at ns v\<close> show ?case by blast
qed simp_all

lemma run_lazy_star:
  "(\<forall>x\<in>set u. accepts a x) \<Longrightarrow> matches_at ns v \<Longrightarrow> matches_at (LazyStar a # ns) (u @ v)"
  by (induction u) (auto intro: m_LazyStar_skip m_LazyStar_take)

lemma matches_LazyStar:
  "matches_at (LazyStar a # ns) inp \<longleftrightarrow>
     (\<exists>u v. inp = u @ v \<and> (\<forall>x\<in>set u. accepts a x) \<and> matches_at ns v)"
  using lazy_star_run [of "LazyStar a # ns" inp a ns] run_lazy_star [of _ a ns] by auto

lemma matches_Plus:
  "matches_at (Plus a # ns) inp \<longleftrightarrow>
     (\<exists>u v. inp = u @ v \<and> u \<noteq> [] \<and> (\<forall>x\<in>set u. accepts a x) \<and> matches_at ns v)"
proof
  assume "matches_at (Plus a # ns) inp"
  then obtain x xs where i: "inp = x # xs" "accepts a x" "matches_at (Star a # ns) xs"
    by (auto elim: m_PlusE)
  then obtain u v where "xs = u @ v" "\<forall>y\<in>set u. accepts a y" "matches_at ns v"
    by (auto simp: matches_Star)
  with i have "inp = (x # u) @ v" "x # u \<noteq> []" "\<forall>y\<in>set (x # u). accepts a y" by auto
  with \<open>matches_at ns v\<close>
  show "\<exists>u v. inp = u @ v \<and> u \<noteq> [] \<and> (\<forall>x\<in>set u. accepts a x) \<and> matches_at ns v" by blast
next
  assume "\<exists>u v. inp = u @ v \<and> u \<noteq> [] \<and> (\<forall>x\<in>set u. accepts a x) \<and> matches_at ns v"
  then obtain u v where uv: "inp = u @ v" "u \<noteq> []" "\<forall>x\<in>set u. accepts a x" "matches_at ns v"
    by blast
  then obtain x u' where u: "u = x # u'" by (cases u) auto
  with uv have "matches_at (Star a # ns) (u' @ v)" by (auto intro: run_star)
  with uv u show "matches_at (Plus a # ns) inp" by (auto intro: m_Plus)
qed

lemma matches_LazyPlus:
  "matches_at (LazyPlus a # ns) inp \<longleftrightarrow>
     (\<exists>u v. inp = u @ v \<and> u \<noteq> [] \<and> (\<forall>x\<in>set u. accepts a x) \<and> matches_at ns v)"
proof
  assume "matches_at (LazyPlus a # ns) inp"
  then obtain x xs where i: "inp = x # xs" "accepts a x" "matches_at (LazyStar a # ns) xs"
    by (auto elim: m_LazyPlusE)
  then obtain u v where "xs = u @ v" "\<forall>y\<in>set u. accepts a y" "matches_at ns v"
    by (auto simp: matches_LazyStar)
  with i have "inp = (x # u) @ v" "x # u \<noteq> []" "\<forall>y\<in>set (x # u). accepts a y" by auto
  with \<open>matches_at ns v\<close>
  show "\<exists>u v. inp = u @ v \<and> u \<noteq> [] \<and> (\<forall>x\<in>set u. accepts a x) \<and> matches_at ns v" by blast
next
  assume "\<exists>u v. inp = u @ v \<and> u \<noteq> [] \<and> (\<forall>x\<in>set u. accepts a x) \<and> matches_at ns v"
  then obtain u v where uv: "inp = u @ v" "u \<noteq> []" "\<forall>x\<in>set u. accepts a x" "matches_at ns v"
    by blast
  then obtain x u' where u: "u = x # u'" by (cases u) auto
  with uv have "matches_at (LazyStar a # ns) (u' @ v)" by (auto intro: run_lazy_star)
  with uv u show "matches_at (LazyPlus a # ns) inp" by (auto intro: m_LazyPlus)
qed

lemma tail_shape:
  "matches_at [Alt [Chr (Lit 63)] [Eos]] post \<longleftrightarrow>
     (post = [] \<or> post = [10] \<or> (\<exists>t. post = 63 # t))"
  by (auto simp: matches_Alt matches_Chr matches_Eos matches_Nil)

lemma any_run: "(\<forall>x\<in>set u. accepts Any x) \<longleftrightarrow> 10 \<notin> set u"
  by auto

lemma space_run: "(\<forall>x\<in>set u. accepts Space x) \<longleftrightarrow> (\<forall>c\<in>set u. is_space c)"
  by auto

lemma group_shape:
  "matches_at (Open g # LazyPlus Any # Close g # ns) inp \<longleftrightarrow>
     (\<exists>u v. inp = u @ v \<and> u \<noteq> [] \<and> 10 \<notin> set u \<and> matches_at ns v)"
  by (simp only: matches_Open matches_LazyPlus matches_Close any_run)

lemma spaces_shape:
  "matches_at (Plus Space # ns) inp \<longleftrightarrow>
     (\<exists>u v. inp = u @ v \<and> u \<noteq> [] \<and> (\<forall>c\<in>set u. is_space c) \<and> matches_at ns v)"
  by (simp only: matches_Plus space_run)

lemma vs_token_shape:
  "matches_at (Chr (OneOf [118, 86]) # Chr (OneOf [115, 83, 383]) # ns) inp \<longleftrightarrow>
     (\<exists>v s r. inp = [v, s] @ r \<and> (v = 118 \<or> v = 86) \<and> (s = 115 \<or> s = 83 \<or> s = 383) \<and>
        matches_at ns r)"
proof
  assume "matches_at (Chr (OneOf [118, 86]) # Chr (OneOf [115, 83, 383]) # ns) inp"
  then obtain v r1 where 1: "inp = v # r1" "accepts (OneOf [118, 86]) v"
    "matches_at (Chr (OneOf [115, 83, 383]) # ns) r1"
    unfolding matches_Chr [of "OneOf [118, 86]"] by blast
  from 1(3) obtain s r where 2: "r1 = s # r" "accepts (OneOf [115, 83, 383]) s" "matches_at ns r"
    unfolding matches_Chr by blast
  from 1 2 have "inp = [v, s] @ r" "v = 118 \<or> v = 86" "s = 115 \<or> s = 83 \<or> s = 383"
    by simp_all
  with 2(3) show "\<exists>v s r. inp = [v, s] @ r \<and> (v = 118 \<or> v = 86) \<and>
      (s = 115 \<or> s = 83 \<or> s = 383) \<and> matches_at ns r"
    by blast
next
  assume "\<exists>v s r. inp = [v, s] @ r \<and> (v = 118 \<or> v = 86) \<and> (s = 115 \<or> s = 83 \<or> s = 383) \<and>
        matches_at ns r"
  then obtain v s r where i: "inp = [v, s] @ r" "v = 118 \<or> v = 86" "s = 115 \<or> s = 83 \<or> s = 383"
    "matches_at ns r" by blast
  have "accepts (OneOf [118, 86]) v" using i(2) by auto
  moreover have "accepts (OneOf [115, 83, 383]) s" using i(3) by auto
  ultimately have "matches_at (Chr (OneOf [118, 86]) # Chr (OneOf [115, 83, 383]) # ns) (v # s # r)"
    using i(4) by (intro m_Chr)
  with i(1) show "matches_at (Chr (OneOf [118, 86]) # Chr (OneOf [115, 83, 383]) # ns) inp"
    by simp
qed

lemma dot_shape:
  "matches_at (Opt (Lit 46) # ns) inp \<longleftrightarrow>
     (\<exists>d r. inp = d @ r \<and> (d = [] \<or> d = [46]) \<and> matches_at ns r)"
proof
  assume "matches_at (Opt (Lit 46) # ns) inp"
  then consider "matches_at ns inp" | xs where "inp = 46 # xs" "matches_at ns xs"
    unfolding matches_Opt by auto
  then show "\<exists>d r. inp = d @ r \<and> (d = [] \<or> d = [46]) \<and> matches_at ns r"
  proof cases
    case 1
    then have "inp = [] @ inp \<and> ([] = [] \<or> [] = [46::nat]) \<and> matches_at ns inp" by simp
    then show ?thesis by blast
  next
    case 2
    then have "inp = [46] @ xs \<and> ([46] = [] \<or> [46] = [46::nat]) \<and> matches_at ns xs" by simp
    then show ?thesis by blast
  qed
next
  assume "\<exists>d r. inp = d @ r \<and> (d = [] \<or> d = [46]) \<and> matches_at ns r"
  then obtain d r where i: "inp = d @ r" "d = [] \<or> d = [46]" "matches_at ns r" by blast
  from i(2) show "matches_at (Opt (Lit 46) # ns) inp"
  proof
    assume "d = []"
    with i show ?thesis by (simp add: m_Opt_skip)
  next
    assume "d = [46]"
    with i show ?thesis by (simp add: m_Opt_take)
  qed
qed

lemma vs_pattern_shape: "matches_at vs_pattern suf \<longleftrightarrow> vs_shape_at suf"
proof
  let ?p6 = "[Alt [Chr (Lit 63)] [Eos]]"
  let ?p5 = "Open 2 # LazyPlus Any # Close 2 # ?p6"
  let ?p4 = "Plus Space # ?p5"
  let ?p3 = "Opt (Lit 46) # ?p4"
  let ?p2 = "Chr (OneOf [118, 86]) # Chr (OneOf [115, 83, 383]) # ?p3"
  let ?p1 = "Plus Space # ?p2"
  assume "matches_at vs_pattern suf"
  then have "matches_at (Open 1 # LazyPlus Any # Close 1 # ?p1) suf"
    by (simp only: vs_pattern_def)
  then obtain a r1 where a: "suf = a @ r1" "a \<noteq> []" "10 \<notin> set a" and m1: "matches_at ?p1 r1"
    using iffD1 [OF group_shape] by blast
  from iffD1 [OF spaces_shape m1] obtain ws1 r2 where
    w1: "r1 = ws1 @ r2" "ws1 \<noteq> []" "\<forall>c\<in>set ws1. is_space c" and m2: "matches_at ?p2 r2"
    by blast
  from iffD1 [OF vs_token_shape m2] obtain v s r3 where
    vs: "r2 = [v, s] @ r3" "v = 118 \<or> v = 86" "s = 115 \<or> s = 83 \<or> s = 383" and
    m3: "matches_at ?p3 r3"
    by blast
  from iffD1 [OF dot_shape m3] obtain dot r4 where
    d: "r3 = dot @ r4" "dot = [] \<or> dot = [46]" and m4: "matches_at ?p4 r4"
    by blast
  from iffD1 [OF spaces_shape m4] obtain ws2 r5 where
    w2: "r4 = ws2 @ r5" "ws2 \<noteq> []" "\<forall>c\<in>set ws2. is_space c" and m5: "matches_at ?p5 r5"
    by blast
  from iffD1 [OF group_shape m5] obtain b post where
    b: "r5 = b @ post" "b \<noteq> []" "10 \<notin> set b" and m6: "matches_at ?p6 post"
    by blast
  from iffD1 [OF tail_shape m6] have p: "post = [] \<or> post = [10] \<or> (\<exists>t. post = 63 # t)" .
  have "suf = a @ ws1 @ [v, s] @ dot @ ws2 @ b @ post"
    by (simp only: a(1) w1(1) vs(1) d(1) w2(1) b(1))
  with a(2,3) w1(2,3) vs(2,3) d(2) w2(2,3) b(2,3) p show "vs_shape_at suf"
    unfolding vs_shape_at_def by blast
next
  let ?p6 = "[Alt [Chr (Lit 63)] [Eos]]"
  let ?p5 = "Open 2 # LazyPlus Any # Close 2 # ?p6"
  let ?p4 = "Plus Space # ?p5"
  let ?p3 = "Opt (Lit 46) # ?p4"
  let ?p2 = "Chr (OneOf [118, 86]) # Chr (OneOf [115, 83, 383]) # ?p3"
  let ?p1 = "Plus Space # ?p2"
  assume "vs_shape_at suf"
  then obtain a ws1 v s dot ws2 b post where
    suf: "suf = a @ ws1 @ [v, s] @ dot @ ws2 @ b @ post" and
    a: "a \<noteq> []" "10 \<notin> set a" and
    w1: "ws1 \<noteq> []" "\<forall>c\<in>set ws1. is_space c" and
    vs: "v = 118 \<or> v = 86" "s = 115 \<or> s = 83 \<or> s = 383" and
    d: "dot = [] \<or> dot = [46]" and
    w2: "ws2 \<noteq> []" "\<forall>c\<in>set ws2. is_space c" and
    b: "b \<noteq> []" "10 \<notin> set b" and
    p: "post = [] \<or> post = [10] \<or> (\<exists>t. post = 63 # t)"
    unfolding vs_shape_at_def by blast
  have m6: "matches_at ?p6 post" using iffD2 [OF tail_shape p] .
  have m5: "matches_at ?p5 (b @ post)"
    by (rule iffD2 [OF group_shape]) (use b m6 in blast)
  have m4: "matches_at ?p4 (ws2 @ b @ post)"
    by (rule iffD2 [OF spaces_shape]) (use w2 m5 in blast)
  have m3: "matches_at ?p3 (dot @ ws2 @ b @ post)"
    by (rule iffD2 [OF dot_shape]) (use d m4 in blast)
  have m2: "matches_at ?p2 ([v, s] @ dot @ ws2 @ b @ post)"
    by (rule iffD2 [OF vs_token_shape]) (use vs m3 in blast)
  have m1: "matches_at ?p1 (ws1 @ [v, s] @ dot @ ws2 @ b @ post)"
    by (rule iffD2 [OF spaces_shape]) (use w1 m2 in blast)
  have "matches_at (Open 1 # LazyPlus Any # Close 1 # ?p1) (a @ ws1 @ [v, s] @ dot @ ws2 @ b @ post)"
    by (rule iffD2 [OF group_shape]) (use a m1 in blast)
  then show "matches_at vs_pattern suf"
    by (simp only: vs_pattern_def suf)
qed

lemma vs_match_iff_shape: "(\<exists>m. re_search vs_pattern q = Some m) \<longleftrightarrow> vs_shape q"
  by (simp only: re_search_def re_search_from_iff vs_shape_def vs_pattern_shape)

section \<open>The calls of a run\<close>

text \<open>
  Each agent method appends exactly one entry to the list of calls, so a run of the
  pipeline leaves the searches, then one extraction per hit in order, then one judging.
\<close>

lemma search_calls: "calls (snd (search env s q k st)) = calls st @ [SearchCall q k]"
  by (simp add: search_def split: prod.splits)

lemma extract_calls:
  "calls (snd (extract_product_info env j sn st)) = calls st @ [ExtractCall sn]"
  by (simp add: extract_product_info_def split: prod.splits)

lemma judge_calls:
  "calls (snd (judge_products env j q ps st)) = calls st @ [JudgeCall q ps]"
  by (simp add: judge_products_def split: prod.splits)

lemma enrich_products_calls:
  "calls (snd (enrich_products env j acc hits st)) =
     calls st @ map (\<lambda>h. ExtractCall (snippet h)) hits"
proof (induction hits arbitrary: acc st)
  case Nil
  then show ?case by simp
next
  case (Cons h hits)
  obtain s st1 where e: "extract_product_info env j (snippet h) st = (s, st1)"
    by (cases "extract_product_info env j (snippet h) st")
  then have "calls st1 = calls st @ [ExtractCall (snippet h)]"
    using extract_calls [of env j "snippet h" st] by simp
  with e Cons.IH show ?case by simp
qed

lemma enrich_products_hits:
  "map hit.truncate (fst (enrich_products env j acc hits st)) = map hit.truncate acc @ hits"
proof (induction hits arbitrary: acc st)
  case Nil
  then show ?case by simp
next
  case (Cons h hits)
  then show ?case by (simp add: hit.truncate_def split: prod.splits)
qed

lemma enrich_products_length:
  "length (fst (enrich_products env j acc hits st)) = length acc + length hits"
  using arg_cong [OF enrich_products_hits [of env j acc hits st], of length] by simp

lemma gather_hits_vs:
  assumes "re_search vs_pattern question = Some vs_match"
    and "group question vs_match 1 = Some a" and "group question vs_match 2 = Some b"
    and "search env (scout self) (strip a) 4 st = (hits_a, st1)"
    and "search env (scout self) (strip b) 4 st1 = (hits_b, st2)"
  shows "gather_hits env self question st = (Inr (hits_a @ hits_b), st2)"
  using assms by (simp add: gather_hits_def)

lemma gather_hits_plain:
  assumes "re_search vs_pattern question = None"
    and "search env (scout self) question 8 st = (hits, st1)"
  shows "gather_hits env self question st = (Inr hits, st1)"
  using assms by (simp add: gather_hits_def)

lemma run_pipeline_calls:
  assumes "gather_hits env self question st = (Inr hits, st1)"
  shows "calls (snd (run_pipeline env self question st)) =
           calls st1 @ map (\<lambda>h. ExtractCall (snippet h)) hits @
           [JudgeCall question (fst (enrich_products env (judge self) [] hits st1))]"
proof -
  obtain eps st2 where e: "enrich_products env (judge self) [] hits st1 = (eps, st2)"
    by (cases "enrich_products env (judge self) [] hits st1")
  obtain v st3 where j: "judge_products env (judge self) question eps st2 = (v, st3)"
    by (cases "judge_products env (judge self) question eps st2")
  have "calls st2 = calls st1 @ map (\<lambda>h. ExtractCall (snippet h)) hits"
    using enrich_products_calls [of env "judge self" "[]" hits st1] e by simp
  moreover have "calls st3 = calls st2 @ [JudgeCall question eps]"
    using judge_calls [of env "judge self" question eps st2] j by simp
  ultimately show ?thesis
    using assms e j by (simp add: run_pipeline_def)
qed

lemma run_pipeline_unfold:
  assumes "gather_hits env self question st = (Inr hits, st1)"
    and "enrich_products env (judge self) [] hits st1 = (eps, st2)"
    and "judge_products env (judge self) question eps st2 = (Inr verdict, st3)"
  shows "run_pipeline env self question st = (assemble_result question verdict eps, st3)"
  using assms by (simp add: run_pipeline_def)

lemma run_pipeline_raises:
  assumes "gather_hits env self question st = (Inr hits, st1)"
    and "enrich_products env (judge self) [] hits st1 = (eps, st2)"
    and "judge_products env (judge self) question eps st2 = (Inl e, st3)"
  shows "run_pipeline env self question st = (Inl e, st3)"
  using assms by (simp add: run_pipeline_def)

lemma assemble_result_sources:
  "assemble_result question verdict eps = Inr r \<Longrightarrow> sources r = take 4 eps"
  by (auto simp: assemble_result_def split: sum.splits)

lemma filter_search_extracts: "filter is_search (map (\<lambda>h. ExtractCall (snippet h)) hs) = []"
  by (induction hs) auto

lemma filter_extract_extracts:
  "filter is_extract (map (\<lambda>h. ExtractCall (snippet h)) hs) = map (\<lambda>h. ExtractCall (snippet h)) hs"
  by (induction hs) auto

lemma filter_judge_extracts: "filter is_judge (map (\<lambda>h. ExtractCall (snippet h)) hs) = []"
  by (induction hs) auto

lemma vs_pipeline_calls:
  assumes "re_search vs_pattern question = Some vs_match"
  shows "\<exists>a b hits_a st1 hits_b st2.
           group question vs_match 1 = Some a \<and> group question vs_match 2 = Some b \<and>
           search env (scout self) (strip a) 4 st = (hits_a, st1) \<and>
           search env (scout self) (strip b) 4 st1 = (hits_b, st2) \<and>
           gather_hits env self question st = (Inr (hits_a @ hits_b), st2) \<and>
           filter is_search (calls (snd (run_pipeline env self question st))) =
             filter is_search (calls st) @ [SearchCall (strip a) 4, SearchCall (strip b) 4] \<and>
           filter is_extract (calls (snd (run_pipeline env self question st))) =
             filter is_extract (calls st) @ map (\<lambda>h. ExtractCall (snippet h)) (hits_a @ hits_b)"
proof -
  obtain a b where g: "group question vs_match 1 = Some a" "group question vs_match 2 = Some b"
    using vs_groups_present [OF assms] by blast
  obtain hits_a st1 where sa: "search env (scout self) (strip a) 4 st = (hits_a, st1)"
    by (cases "search env (scout self) (strip a) 4 st")
  obtain hits_b st2 where sb: "search env (scout self) (strip b) 4 st1 = (hits_b, st2)"
    by (cases "search env (scout self) (strip b) 4 st1")
  have gh: "gather_hits env self question st = (Inr (hits_a @ hits_b), st2)"
    by (rule gather_hits_vs [OF assms g sa sb])
  have c1: "calls st1 = calls st @ [SearchCall (strip a) 4]"
    using search_calls [of env "scout self" "strip a" 4 st] sa by simp
  have c2: "calls st2 = calls st1 @ [SearchCall (strip b) 4]"
    using search_calls [of env "scout self" "strip b" 4 st1] sb by simp
  have tr: "calls (snd (run_pipeline env self question st)) =
              calls st2 @ map (\<lambda>h. ExtractCall (snippet h)) (hits_a @ hits_b) @
              [JudgeCall question (fst (enrich_products env (judge self) [] (hits_a @ hits_b) st2))]"
    by (rule run_pipeline_calls [OF gh])
  have f1: "filter is_search (calls (snd (run_pipeline env self question st))) =
              filter is_search (calls st) @ [SearchCall (strip a) 4, SearchCall (strip b) 4]"
    unfolding tr c2 c1 by (simp add: filter_search_extracts del: map_append)
  have f2: "filter is_extract (calls (snd (run_pipeline env self question st))) =
              filter is_extract (calls st) @ map (\<lambda>h. ExtractCall (snippet h)) (hits_a @ hits_b)"
    unfolding tr c2 c1 by (simp add: filter_extract_extracts del: map_append)
  from g sa sb gh f1 f2 show ?thesis by blast
qed

lemma plain_pipeline_searches:
  assumes "re_search vs_pattern question = None"
  shows "filter is_search (calls (snd (run_pipeline env self question st))) =
           filter is_search (calls st) @ [SearchCall question 8]"
proof -
  obtain hits st1 where s: "search env (scout self) question 8 st = (hits, st1)"
    by (cases "search env (scout self) question 8 st")
  have gh: "gather_hits env self question st = (Inr hits, st1)"
    by (rule gather_hits_plain [OF assms s])
  have c1: "calls st1 = calls st @ [SearchCall question 8]"
    using search_calls [of env "scout self" question 8 st] s by simp
  show ?thesis
    unfolding run_pipeline_calls [OF gh] c1 by (simp add: filter_search_extracts)
qed

lemma call_openai_raised:
  assumes "fst (chat_create env (api_key j) (openai_kwargs j sp up jm) w) = ChatRaised"
  shows "fst (call_openai env j sp up jm w) = []"
  using assms by (simp add: call_openai_def case_prod_beta)

lemma decode_error_fallback:
  "(json_loads (limits env) (fst (call_openai env j judge_system_prompt
        (JStr (judge_user_prompt env question products)) True (world st))) = Inl JSONDecodeError \<longrightarrow>
      fst (judge_products env j question products st) = Inr fallback_verdict) \<and>
   (fst (chat_create env (api_key j)
        (openai_kwargs j judge_system_prompt (JStr (judge_user_prompt env question products)) True)
        (world st)) = ChatRaised \<longrightarrow>
      fst (call_openai env j judge_system_prompt
        (JStr (judge_user_prompt env question products)) True (world st)) = [] \<and>
      fst (judge_products env j question products st) = Inr fallback_verdict)"
proof -
  let ?up = "JStr (judge_user_prompt env question products)"
  have a: "json_loads (limits env) (fst (call_openai env j judge_system_prompt ?up True (world st))) =
      Inl JSONDecodeError \<Longrightarrow>
      fst (judge_products env j question products st) = Inr fallback_verdict"
    by (simp add: judge_products_def case_prod_beta)
  have b: "fst (call_openai env j judge_system_prompt ?up True (world st)) = []"
    if "fst (chat_create env (api_key j) (openai_kwargs j judge_system_prompt ?up True) (world st)) = ChatRaised"
    using that by (rule call_openai_raised)
  have "json_loads (limits env) [] = Inl JSONDecodeError"
    by (simp add: json_loads_def skip_ws_def)
  then have c: "fst (judge_products env j question products st) = Inr fallback_verdict"
    if "fst (chat_create env (api_key j) (openai_kwargs j judge_system_prompt ?up True) (world st)) = ChatRaised"
    using a b [OF that] by simp
  from a b c show ?thesis by blast
qed

lemma run_pipeline_returns_iff:
  assumes "gather_hits env self question st = (Inr hits, st1)"
    and "enrich_products env (judge self) [] hits st1 = (eps, st2)"
  shows "(\<exists>r. fst (run_pipeline env self question st) = Inr r) \<longleftrightarrow>
         (\<exists>kvs. fst (judge_products env (judge self) question eps st2) = Inr (JObject kvs))"
proof -
  obtain jr st3 where jp: "judge_products env (judge self) question eps st2 = (jr, st3)"
    by (cases "judge_products env (judge self) question eps st2")
  show ?thesis
  proof (cases jr)
    case (Inl e)
    with run_pipeline_raises [OF assms] jp show ?thesis by simp
  next
    case (Inr v)
    with run_pipeline_unfold [OF assms] jp show ?thesis
      by (cases v) (simp_all add: assemble_result_def)
  qed
qed

section \<open>Normalised hits and the stand-alone \<open>enrich\<close>\<close>

text \<open>
  When the loop of \<open>search\<close> succeeds, every item was a dict and every hit holds the
  slice of that item's content. The loop of \<open>enrich\<close> changes nothing but the
  \<open>summary\<close> key of the dicts it is given.
\<close>

lemma normalize_results_spec:
  "normalize_results acc items = Inr hits \<Longrightarrow>
     \<exists>new. hits = acc @ new \<and> length new = length items \<and>
       (\<forall>i<length items. \<exists>kvs. items ! i = JObject kvs \<and>
          py_slice500 (case map_of kvs (str ''content'') of None \<Rightarrow> JStr [] | Some c \<Rightarrow> c) =
            Inr (snippet (new ! i)))"
proof (induction items arbitrary: acc)
  case Nil
  then show ?case by simp
next
  case (Cons result rest)
  from Cons.prems obtain kvs where kvs: "result = JObject kvs"
    by (cases result) simp_all
  let ?c = "case map_of kvs (str ''content'') of None \<Rightarrow> JStr [] | Some c \<Rightarrow> c"
  from Cons.prems kvs obtain sn where sn: "py_slice500 ?c = Inr sn"
    by (cases "py_slice500 ?c") simp_all
  let ?h = "\<lparr>title = (case map_of kvs (str ''title'') of None \<Rightarrow> JStr [] | Some v \<Rightarrow> v),
            url = (case map_of kvs (str ''url'') of None \<Rightarrow> JStr [] | Some v \<Rightarrow> v),
            snippet = sn\<rparr>"
  have "normalize_results (acc @ [?h]) rest = Inr hits"
    using Cons.prems kvs sn by simp
  from Cons.IH [OF this] obtain new where
    new: "hits = (acc @ [?h]) @ new" "length new = length rest"
      "\<forall>i<length rest. \<exists>kvs. rest ! i = JObject kvs \<and>
          py_slice500 (case map_of kvs (str ''content'') of None \<Rightarrow> JStr [] | Some c \<Rightarrow> c) =
            Inr (snippet (new ! i))"
    by blast
  have "\<forall>i<length (result # rest). \<exists>kvs. (result # rest) ! i = JObject kvs \<and>
          py_slice500 (case map_of kvs (str ''content'') of None \<Rightarrow> JStr [] | Some c \<Rightarrow> c) =
            Inr (snippet ((?h # new) ! i))"
  proof (intro allI impI)
    fix i assume "i < length (result # rest)"
    then show "\<exists>kvs. (result # rest) ! i = JObject kvs \<and>
          py_slice500 (case map_of kvs (str ''content'') of None \<Rightarrow> JStr [] | Some c \<Rightarrow> c) =
            Inr (snippet ((?h # new) ! i))"
      using kvs sn new(3) by (cases i) auto
  qed
  moreover have "hits = acc @ (?h # new)" using new(1) by simp
  moreover have "length (?h # new) = length (result # rest)" using new(2) by simp
  ultimately show ?case by blast
qed

lemma search_body:
  assumes "http_post env (base_url self @ str ''/search'') (search_payload self q k) (world st) =
             (Body text, w')"
    and "json_loads (limits env) text = Inr data"
    and "py_get data (str ''results'') (JArray []) = Inr (JArray items)"
    and "normalize_results [] items = Inr hits"
  shows "fst (search env self q k st) = hits"
  using assms by (simp add: search_def search_try_def)

lemma enrich_loop_frame:
  "enrich_loop env j refs h st = (res, h', st') \<Longrightarrow>
     (\<forall>r k. k \<noteq> str ''summary'' \<longrightarrow> map_of (h' r) k = map_of (h r) k) \<and>
     (\<forall>r. r \<notin> set refs \<longrightarrow> h' r = h r)"
proof (induction refs arbitrary: h st)
  case Nil
  then show ?case by simp
next
  case (Cons r rs)
  show ?case
  proof (cases "map_of (h r) (str ''snippet'')")
    case None
    with Cons.prems show ?thesis by simp
  next
    case (Some sn)
    obtain s st1 where e: "extract_product_info env j sn st = (s, st1)"
      by (cases "extract_product_info env j sn st")
    let ?h1 = "h(r := AList.update (str ''summary'') (JStr s) (h r))"
    have "enrich_loop env j rs ?h1 st1 = (res, h', st')"
      using Cons.prems Some e by simp
    from Cons.IH [OF this] have
      a: "\<forall>r' k. k \<noteq> str ''summary'' \<longrightarrow> map_of (h' r') k = map_of (?h1 r') k" and
      b: "\<forall>r'. r' \<notin> set rs \<longrightarrow> h' r' = ?h1 r'"
      by blast+
    have "\<forall>r' k. k \<noteq> str ''summary'' \<longrightarrow> map_of (?h1 r') k = map_of (h r') k"
      by (simp add: update_conv')
    with a b show ?thesis by simp
  qed
qed

lemma enrich_loop_keeps_summary:
  "enrich_loop env j refs h st = (res, h', st') \<Longrightarrow>
     \<exists>s. map_of (h r) (str ''summary'') = Some (JStr s) \<Longrightarrow>
     \<exists>s. map_of (h' r) (str ''summary'') = Some (JStr s)"
proof (induction refs arbitrary: h st)
  case Nil
  then show ?case by simp
next
  case (Cons x xs)
  show ?case
  proof (cases "map_of (h x) (str ''snippet'')")
    case None
    with Cons.prems show ?thesis by simp
  next
    case (Some sn)
    obtain s st1 where e: "extract_product_info env j sn st = (s, st1)"
      by (cases "extract_product_info env j sn st")
    let ?h1 = "h(x := AList.update (str ''summary'') (JStr s) (h x))"
    have l: "enrich_loop env j xs ?h1 st1 = (res, h', st')"
      using Cons.prems(1) Some e by simp
    have "\<exists>s. map_of (?h1 r) (str ''summary'') = Some (JStr s)"
      using Cons.prems(2) by (simp add: update_conv')
    from Cons.IH [OF l this] show ?thesis .
  qed
qed

lemma enrich_loop_summaries:
  "enrich_loop env j refs h st = (None, h', st') \<Longrightarrow>
     \<forall>r\<in>set refs. \<exists>s. map_of (h' r) (str ''summary'') = Some (JStr s)"
proof (induction refs arbitrary: h st)
  case Nil
  then show ?case by simp
next
  case (Cons x xs)
  show ?case
  proof (cases "map_of (h x) (str ''snippet'')")
    case None
    with Cons.prems show ?thesis by simp
  next
    case (Some sn)
    obtain s st1 where e: "extract_product_info env j sn st = (s, st1)"
      by (cases "extract_product_info env j sn st")
    let ?h1 = "h(x := AList.update (str ''summary'') (JStr s) (h x))"
    have l: "enrich_loop env j xs ?h1 st1 = (None, h', st')"
      using Cons.prems(1) Some e by simp
    have "\<exists>s. map_of (?h1 x) (str ''summary'') = Some (JStr s)"
      by (simp add: update_conv')
    from enrich_loop_keeps_summary [OF l this] Cons.IH [OF l]
    show ?thesis by simp
  qed
qed

lemma enrich_returns:
  assumes "enrich env refs h st = (Inr out, h', st')"
  shows "\<exists>j. JudgeAgent_init env = Inr j \<and> enrich_loop env j refs h st = (None, h', st') \<and> out = refs"
  using assms
  by (auto simp: enrich_def split: sum.splits prod.splits option.splits)

text \<open>
  The products of the pipeline's loop one by one, the same loop on a store, and what the
  loop of \<open>enrich\<close> has written when it ends, normally or not.
\<close>

lemma enrich_products_acc:
  "enrich_products env j acc hits st =
     (acc @ fst (enrich_products env j [] hits st), snd (enrich_products env j [] hits st))"
proof (induction hits arbitrary: acc st)
  case Nil
  show ?case by simp
next
  case (Cons x hits)
  obtain s st1 where e: "extract_product_info env j (snippet x) st = (s, st1)"
    by (cases "extract_product_info env j (snippet x) st")
  let ?p = "\<lparr>title = title x, url = url x, snippet = snippet x, summary = s\<rparr>"
  have "enrich_products env j acc (x # hits) st = enrich_products env j (acc @ [?p]) hits st1"
    using e by simp
  also have "\<dots> = ((acc @ [?p]) @ fst (enrich_products env j [] hits st1),
                   snd (enrich_products env j [] hits st1))"
    by (rule Cons.IH)
  finally have 1: "enrich_products env j acc (x # hits) st =
      (acc @ ?p # fst (enrich_products env j [] hits st1), snd (enrich_products env j [] hits st1))"
    by simp
  have "enrich_products env j [] (x # hits) st = enrich_products env j ([] @ [?p]) hits st1"
    using e by simp
  also have "\<dots> = (([] @ [?p]) @ fst (enrich_products env j [] hits st1),
                   snd (enrich_products env j [] hits st1))"
    by (rule Cons.IH)
  finally have 2: "enrich_products env j [] (x # hits) st =
      (?p # fst (enrich_products env j [] hits st1), snd (enrich_products env j [] hits st1))"
    by simp
  show ?case unfolding 1 2 by simp
qed

lemma enrich_products_Cons:
  assumes "extract_product_info env j (snippet x) st = (s, st1)"
  shows "enrich_products env j [] (x # hits) st =
     (\<lparr>title = title x, url = url x, snippet = snippet x, summary = s\<rparr> #
        fst (enrich_products env j [] hits st1),
      snd (enrich_products env j [] hits st1))"
proof -
  let ?p = "\<lparr>title = title x, url = url x, snippet = snippet x, summary = s\<rparr>"
  have "enrich_products env j [] (x # hits) st = enrich_products env j [?p] hits st1"
    using assms by simp
  also have "\<dots> = ([?p] @ fst (enrich_products env j [] hits st1),
                   snd (enrich_products env j [] hits st1))"
    by (rule enrich_products_acc)
  finally show ?thesis by simp
qed

lemma enrich_products_nth:
  "i < length hits \<Longrightarrow>
     fst (enrich_products env j [] hits st) ! i =
       \<lparr>title = title (hits ! i), url = url (hits ! i), snippet = snippet (hits ! i),
        summary = fst (extract_product_info env j (snippet (hits ! i))
                    (snd (enrich_products env j [] (take i hits) st)))\<rparr>"
proof (induction hits arbitrary: i st)
  case Nil
  then show ?case by simp
next
  case (Cons x hits)
  obtain s st1 where e: "extract_product_info env j (snippet x) st = (s, st1)"
    by (cases "extract_product_info env j (snippet x) st")
  show ?case
  proof (cases i)
    case 0
    then show ?thesis using e
      by (simp add: enrich_products_Cons [OF e] del: enrich_products.simps(2))
  next
    case (Suc k)
    with Cons.prems have k: "k < length hits" by simp
    have "snd (enrich_products env j [] (take i (x # hits)) st) =
          snd (enrich_products env j [] (take k hits) st1)"
      using Suc by (simp add: enrich_products_Cons [OF e] del: enrich_products.simps(2))
    with Cons.IH [OF k, of st1] Suc show ?thesis
      by (simp add: enrich_products_Cons [OF e] del: enrich_products.simps(2))
  qed
qed

lemma enrich_products_at_agrees:
  "length refs = length hits \<Longrightarrow> \<forall>i<length refs. h (refs ! i) = hit_dict (hits ! i) \<Longrightarrow>
     enrich_products_at env j acc refs h st =
       (Inr (fst (enrich_products env j acc hits st)), h, snd (enrich_products env j acc hits st))"
proof (induction refs arbitrary: hits acc st)
  case Nil
  then show ?case by simp
next
  case (Cons r rs)
  then obtain x xs where hits: "hits = x # xs" by (cases hits) auto
  from Cons.prems hits have len: "length rs = length xs" by simp
  from Cons.prems(2) hits have r: "h r = hit_dict x" by auto
  have rest: "\<forall>i<length rs. h (rs ! i) = hit_dict (xs ! i)"
  proof (intro allI impI)
    fix i assume "i < length rs"
    then have "Suc i < length (r # rs)" by simp
    with Cons.prems(2) have "h ((r # rs) ! Suc i) = hit_dict (hits ! Suc i)" by blast
    with hits show "h (rs ! i) = hit_dict (xs ! i)" by simp
  qed
  obtain s st1 where e: "extract_product_info env j (snippet x) st = (s, st1)"
    by (cases "extract_product_info env j (snippet x) st")
  have k: "map_of (h r) (str ''snippet'') = Some (snippet x)"
    "map_of (h r) (str ''title'') = Some (title x)"
    "map_of (h r) (str ''url'') = Some (url x)"
    by (simp_all add: r hit_dict_def str_def)
  have "enrich_products_at env j acc (r # rs) h st =
        enrich_products_at env j
          (acc @ [\<lparr>title = title x, url = url x, snippet = snippet x, summary = s\<rparr>]) rs h st1"
    using k e by simp
  also have "\<dots> = (Inr (fst (enrich_products env j
          (acc @ [\<lparr>title = title x, url = url x, snippet = snippet x, summary = s\<rparr>]) xs st1)), h,
        snd (enrich_products env j
          (acc @ [\<lparr>title = title x, url = url x, snippet = snippet x, summary = s\<rparr>]) xs st1))"
    by (rule Cons.IH [OF len rest])
  finally show ?case using e hits by simp
qed


lemma enrich_products_at_store:
  "fst (snd (enrich_products_at env j acc refs h st)) = h"
proof (induction refs arbitrary: acc st)
  case Nil
  show ?case by simp
next
  case (Cons r rs)
  show ?case
  proof (cases "map_of (h r) (str ''snippet'')")
    case None
    then show ?thesis by simp
  next
    case (Some sn)
    obtain s st1 where e: "extract_product_info env j sn st = (s, st1)"
      by (cases "extract_product_info env j sn st")
    show ?thesis
      using Some e Cons.IH by (simp split: option.splits)
  qed
qed

lemma enrich_loop_Cons:
  assumes "map_of (h r) (str ''snippet'') = Some sn"
    and "extract_product_info env j sn st = (s, st1)"
  shows "enrich_loop env j (r # rs) h st =
           enrich_loop env j rs (h(r := AList.update (str ''summary'') (JStr s) (h r))) st1"
  using assms by simp

lemma snippet_kept:
  "map_of ((h(r := AList.update (str ''summary'') v (h r))) x) (str ''snippet'') =
     map_of (h x) (str ''snippet'')"
  by (simp add: update_conv' str_def)

lemma enrich_loop_outcome:
  "fst (enrich_loop env j refs h st) =
     (if \<forall>r\<in>set refs. map_of (h r) (str ''snippet'') \<noteq> None then None else Some KeyError)"
proof (induction refs arbitrary: h st)
  case Nil
  show ?case by simp
next
  case (Cons r rs)
  show ?case
  proof (cases "map_of (h r) (str ''snippet'')")
    case None
    then show ?thesis by simp
  next
    case (Some sn)
    obtain s st1 where e: "extract_product_info env j sn st = (s, st1)"
      by (cases "extract_product_info env j sn st")
    let ?h1 = "h(r := AList.update (str ''summary'') (JStr s) (h r))"
    have "(\<forall>x\<in>set rs. map_of (?h1 x) (str ''snippet'') \<noteq> None) \<longleftrightarrow>
          (\<forall>x\<in>set rs. map_of (h x) (str ''snippet'') \<noteq> None)"
      by (simp only: snippet_kept)
    with Cons.IH [of ?h1 st1] Some show ?thesis
      by (simp only: enrich_loop_Cons [where h = h and r = r, OF Some e]) simp
  qed
qed

lemma enrich_loop_written:
  "enrich_loop env j refs h st = (None, h', st') \<Longrightarrow> i < length refs \<Longrightarrow>
   refs ! i \<notin> set (drop (Suc i) refs) \<Longrightarrow>
     \<exists>sn. map_of (h (refs ! i)) (str ''snippet'') = Some sn \<and>
       h' (refs ! i) =
         AList.update (str ''summary'')
           (JStr (fst (extract_product_info env j sn
                    (snd (snd (enrich_loop env j (take i refs) h st))))))
           (h (refs ! i))"
proof (induction refs arbitrary: h st i)
  case Nil
  then show ?case by simp
next
  case (Cons r rs)
  from Cons.prems(1) obtain sn0 where sn0: "map_of (h r) (str ''snippet'') = Some sn0"
    by (cases "map_of (h r) (str ''snippet'')") simp_all
  obtain s0 st1 where e: "extract_product_info env j sn0 st = (s0, st1)"
    by (cases "extract_product_info env j sn0 st")
  let ?h1 = "h(r := AList.update (str ''summary'') (JStr s0) (h r))"
  have loop: "enrich_loop env j rs ?h1 st1 = (None, h', st')"
    using Cons.prems(1) by (simp only: enrich_loop_Cons [where h = h and r = r, OF sn0 e])
  show ?case
  proof (cases i)
    case 0
    with Cons.prems(3) have "r \<notin> set rs" by simp
    with enrich_loop_frame [OF loop] have "h' r = ?h1 r" by blast
    then have "h' r = AList.update (str ''summary'') (JStr s0) (h r)" by simp
    with 0 sn0 e show ?thesis by simp
  next
    case (Suc k)
    with Cons.prems have k: "k < length rs" and last: "rs ! k \<notin> set (drop (Suc k) rs)"
      by simp_all
    from Cons.IH [OF loop k last] obtain sn where
      sn: "map_of (?h1 (rs ! k)) (str ''snippet'') = Some sn" and
      w: "h' (rs ! k) =
           AList.update (str ''summary'')
             (JStr (fst (extract_product_info env j sn
                      (snd (snd (enrich_loop env j (take k rs) ?h1 st1))))))
             (?h1 (rs ! k))"
      by blast
    from sn have sn': "map_of (h (rs ! k)) (str ''snippet'') = Some sn"
      by (simp only: snippet_kept)
    have st: "enrich_loop env j (take (Suc k) (r # rs)) h st = enrich_loop env j (take k rs) ?h1 st1"
      by (simp only: take_Suc_Cons enrich_loop_Cons [where h = h and r = r, OF sn0 e])
    have up: "AList.update (str ''summary'') v (?h1 (rs ! k)) =
              AList.update (str ''summary'') v (h (rs ! k))" for v
      by simp
    from w have "h' (rs ! k) =
           AList.update (str ''summary'')
             (JStr (fst (extract_product_info env j sn
                      (snd (snd (enrich_loop env j (take (Suc k) (r # rs)) h st))))))
             (h (rs ! k))"
      by (simp only: st up)
    with sn' Suc show ?thesis by simp
  qed
qed

lemma enrich_outcome:
  "fst (enrich env refs h st) =
     (case JudgeAgent_init env of
        Inl e \<Rightarrow> Inl e
      | Inr j \<Rightarrow>
          if \<forall>r\<in>set refs. map_of (h r) (str ''snippet'') \<noteq> None then Inr refs
          else Inl KeyError)"
proof (cases "JudgeAgent_init env")
  case (Inl e)
  then show ?thesis by (simp add: enrich_def)
next
  case (Inr j)
  obtain res h' st' where l: "enrich_loop env j refs h st = (res, h', st')"
    by (cases "enrich_loop env j refs h st")
  with enrich_loop_outcome [of env j refs h st]
  have "res = (if \<forall>r\<in>set refs. map_of (h r) (str ''snippet'') \<noteq> None then None else Some KeyError)"
    by simp
  with Inr l show ?thesis by (simp add: enrich_def)
qed

lemma enrich_frame:
  assumes "enrich env refs h st = (res, h', st')"
  shows "(\<forall>r k. k \<noteq> str ''summary'' \<longrightarrow> map_of (h' r) k = map_of (h r) k) \<and>
         (\<forall>r. r \<notin> set refs \<longrightarrow> h' r = h r)"
proof (cases "JudgeAgent_init env")
  case (Inl e)
  with assms show ?thesis by (simp add: enrich_def)
next
  case (Inr j)
  obtain lr lh lst where l: "enrich_loop env j refs h st = (lr, lh, lst)"
    by (cases "enrich_loop env j refs h st")
  with assms Inr have "h' = lh" by (cases lr) (simp_all add: enrich_def)
  with enrich_loop_frame [OF l] show ?thesis by simp
qed

section \<open>Worked examples\<close>

lemma long_result_loads:
  "json_loads demo_limits long_result =
     Inr (JObject [(str ''results'', JArray
       [JObject [(str ''title'', JStr (str ''T'')), (str ''content'', JStr (replicate 501 120))]])])"
  by (simp add: long_result_def json_loads_def demo_limits_def str_def skip_ws_def scanstring_plain)

lemma demo_enrich:
  "enrich (fixed_env ConnectFailed (ChatContent (str ''ok'')) ChatRaised) [0] demo_store fresh =
     (Inr [0],
      demo_store(0 := [(str ''title'', JStr (str ''A'')), (str ''url'', JStr (str ''a'')),
                       (str ''snippet'', JStr (str ''text'')), (str ''summary'', JStr (str ''ok''))]),
      \<lparr>world = (), calls = [ExtractCall (JStr (str ''text''))]\<rparr>)"
  by (simp add: enrich_def JudgeAgent_init_def fixed_env_def demo_store_def fresh_def
      extract_product_info_def call_openai_def openai_kwargs_def strip_def str_def is_space_def)


lemma demo_store_holds: "demo_store r = hit_dict demo_hit"
  by (simp add: demo_store_def hit_dict_def demo_hit_def)

lemma demo_extract:
  "extract_product_info (fixed_env f (ChatContent (str ''ok'')) jd) j sn st =
     (str ''ok'', \<lparr>world = world st, calls = calls st @ [ExtractCall sn]\<rparr>)"
  by (simp add: extract_product_info_def call_openai_def openai_kwargs_def fixed_env_def
      strip_def str_def is_space_def)

lemma demo_judge_init:
  "JudgeAgent_init (fixed_env f s jd) = Inr (judge demo_sage)"
  by (simp add: JudgeAgent_init_def fixed_env_def demo_sage_def str_def)

lemma iphone_groups:
  "\<exists>m. re_search vs_pattern (str ''iPhone 15 Pro vs Pixel 8 Pro'') = Some m \<and>
       group (str ''iPhone 15 Pro vs Pixel 8 Pro'') m 1 = Some (str ''iPhone 15 Pro'') \<and>
       group (str ''iPhone 15 Pro vs Pixel 8 Pro'') m 2 = Some (str ''Pixel 8 Pro'')"
  by (simp add: re_search_def vs_pattern_def str_def is_space_def group_def)

lemma strip_iphone: "strip (str ''iPhone 15 Pro'') = str ''iPhone 15 Pro''"
  by (simp add: strip_def str_def is_space_def)

lemma strip_pixel: "strip (str ''Pixel 8 Pro'') = str ''Pixel 8 Pro''"
  by (simp add: strip_def str_def is_space_def)

lemma iphone_searches:
  "filter is_search (calls (snd (run_pipeline env self (str ''iPhone 15 Pro vs Pixel 8 Pro'') st))) =
     filter is_search (calls st) @
     [SearchCall (str ''iPhone 15 Pro'') 4, SearchCall (str ''Pixel 8 Pro'') 4]"
proof -
  obtain m where m: "re_search vs_pattern (str ''iPhone 15 Pro vs Pixel 8 Pro'') = Some m"
    and g: "group (str ''iPhone 15 Pro vs Pixel 8 Pro'') m 1 = Some (str ''iPhone 15 Pro'')"
       "group (str ''iPhone 15 Pro vs Pixel 8 Pro'') m 2 = Some (str ''Pixel 8 Pro'')"
    using iphone_groups by blast
  from vs_pipeline_calls [OF m, of env self st] g
  show ?thesis by (auto simp: strip_iphone strip_pixel)
qed

lemma sony_groups:
  "\<exists>m. re_search vs_pattern (str ''Sony XM5 vs Apple AirPods Max'') = Some m \<and>
       group (str ''Sony XM5 vs Apple AirPods Max'') m 1 = Some (str ''Sony XM5'') \<and>
       group (str ''Sony XM5 vs Apple AirPods Max'') m 2 = Some (str ''Apple AirPods Max'')"
  by (simp add: re_search_def vs_pattern_def str_def is_space_def group_def)

lemma strip_sony:
  "strip (str ''Sony XM5'') = str ''Sony XM5''"
  "strip (str ''Apple AirPods Max'') = str ''Apple AirPods Max''"
  by (simp_all add: strip_def str_def is_space_def)

lemma spaced_groups:
  "\<exists>m. re_search vs_pattern (str ''  Sony XM5 vs. Apple AirPods Max ?'') = Some m \<and>
       group (str ''  Sony XM5 vs. Apple AirPods Max ?'') m 1 = Some (str ''  Sony XM5'') \<and>
       group (str ''  Sony XM5 vs. Apple AirPods Max ?'') m 2 = Some (str ''Apple AirPods Max '')"
  by (simp add: re_search_def vs_pattern_def str_def is_space_def group_def)

lemma strip_spaced:
  "strip (str ''  Sony XM5'') = str ''Sony XM5''"
  "strip (str ''Apple AirPods Max '') = str ''Apple AirPods Max''"
  by (simp_all add: strip_def str_def is_space_def)

lemma plain_question: "re_search vs_pattern (str ''best headphones under $500'') = None"
  by (simp add: re_search_def vs_pattern_def str_def is_space_def)

lemma plain_laptop: "re_search vs_pattern (str ''best laptop'') = None"
  by (simp add: re_search_def vs_pattern_def str_def is_space_def)

lemma json_loads_empty: "json_loads lims [] = Inl JSONDecodeError"
  by (simp add: json_loads_def skip_ws_def)

text \<open>
  \<open>json.loads\<close> sees the response only after \<open>.strip()\<close>, which removes more than JSON
  white space: a vertical tab before \<open>{}\<close> is not JSON as sent, and is gone when parsed.
\<close>

lemma stripped_before_parsing:
  "json_loads demo_limits [11, 123, 125] = Inl JSONDecodeError \<and>
   json_loads demo_limits (strip [11, 123, 125]) = Inr (JObject [])"
  by (simp add: json_loads_def demo_limits_def skip_ws_def strip_def is_space_def
      match_constant_def match_number_def scan_integer_def str_def)

lemma cannot_decide: "json_loads lims (str ''I cannot decide'') = Inl JSONDecodeError"
  by (simp add: json_loads_def str_def skip_ws_def match_constant_def match_number_def
      scan_integer_def)

lemma five_results_loads:
  "json_loads demo_limits five_results =
     Inr (JObject [(str ''results'', JArray
       [JObject [(str ''title'', JStr (str ''A'')), (str ''content'', JStr (str ''a''))],
        JObject [(str ''title'', JStr (str ''B''))],
        JObject [(str ''title'', JStr (str ''C''))],
        JObject [(str ''title'', JStr (str ''D''))],
        JObject [(str ''title'', JStr (str ''E'')), (str ''url'', JStr (str ''e''))]])])"
  by (simp add: five_results_def json_loads_def demo_limits_def str_def skip_ws_def)

lemma five_results_search:
  "search (fixed_env (Body five_results) s j) sa q k st =
     (five_hits, \<lparr>world = world st, calls = calls st @ [SearchCall q k]\<rparr>)"
  by (simp add: search_def search_try_def fixed_env_def five_results_loads five_hits_def)
     (simp add: str_def)

lemma five_gather:
  "gather_hits (fixed_env (Body five_results) s j) demo_sage (str ''best headphones under $500'') fresh =
     (Inr five_hits, \<lparr>world = (), calls = [SearchCall (str ''best headphones under $500'') 8]\<rparr>)"
  by (simp add: gather_hits_def plain_question five_results_search fresh_def)

lemma five_enrich:
  "fst (enrich_products (fixed_env f (ChatContent s) j) jd [] five_hits st) =
     five_products (strip s)"
  by (simp add: five_hits_def five_products_def extract_product_info_def call_openai_def
      fixed_env_def openai_kwargs_def hit.defs product.defs)

lemma search_failed:
  "search (fixed_env ConnectFailed s j) sa q k st =
     ([], \<lparr>world = world st, calls = calls st @ [SearchCall q k]\<rparr>)"
  by (simp add: search_def search_try_def fixed_env_def)

lemma gather_failed:
  "gather_hits (fixed_env ConnectFailed s j) demo_sage (str ''best laptop'') fresh =
     (Inr [], \<lparr>world = (), calls = [SearchCall (str ''best laptop'') 8]\<rparr>)"
  by (simp add: gather_hits_def plain_laptop search_failed fresh_def)

lemma total_failure_result:
  "fst (run_pipeline (fixed_env ConnectFailed ChatRaised ChatRaised) demo_sage (str ''best laptop'') fresh) =
     Inr \<lparr>query = str ''best laptop'', winner = JStr (str ''Unable to determine''),
          ranking = JArray [], reasons = JArray [JStr (str ''Error parsing recommendation'')],
          sources = []\<rparr>"
proof -
  let ?env = "fixed_env ConnectFailed ChatRaised ChatRaised"
  let ?st1 = "\<lparr>world = (), calls = [SearchCall (str ''best laptop'') 8]\<rparr>"
  have g: "gather_hits ?env demo_sage (str ''best laptop'') fresh = (Inr [], ?st1)"
    by (rule gather_failed)
  have e: "enrich_products ?env (judge demo_sage) [] [] ?st1 = ([], ?st1)" by simp
  have jp: "judge_products ?env (judge demo_sage) (str ''best laptop'') [] ?st1 =
      (Inr fallback_verdict,
       \<lparr>world = (), calls = [SearchCall (str ''best laptop'') 8, JudgeCall (str ''best laptop'') []]\<rparr>)"
    by (simp add: judge_products_def call_openai_def fixed_env_def openai_kwargs_def
        json_loads_empty)
  show ?thesis
    using run_pipeline_unfold [OF g e jp]
    by (simp add: assemble_result_def fallback_verdict_def str_def)
qed

section \<open>The claims\<close>

text \<open>
  Claim C1. Whenever the question has the shape \<open>vs_shape\<close>, the pattern matches it and
  \<open>run_pipeline\<close> makes exactly two search calls, each with \<open>max_results\<close> 4: the first
  on group 1 stripped of surrounding white space, the second on group 2 stripped of
  surrounding white space (the query is the group between two runs of white space, and
  neither begins nor ends with white space); the hits that go on to enrichment are the
  first call's followed by the second's. For the question
  \<open>iPhone 15 Pro vs Pixel 8 Pro\<close> the two queries are \<open>iPhone 15 Pro\<close> and \<open>Pixel 8 Pro\<close>.
\<close>

theorem vs_question_two_searches:
  assumes "vs_shape question"
  shows "(\<exists>vs_match a b hits_a st1 hits_b st2.
           re_search vs_pattern question = Some vs_match \<and>
           group question vs_match 1 = Some a \<and> group question vs_match 2 = Some b \<and>
           stripped_of (strip a) a \<and> stripped_of (strip b) b \<and>
           search env (scout self) (strip a) 4 st = (hits_a, st1) \<and>
           search env (scout self) (strip b) 4 st1 = (hits_b, st2) \<and>
           gather_hits env self question st = (Inr (hits_a @ hits_b), st2) \<and>
           filter is_search (calls (snd (run_pipeline env self question st))) =
             filter is_search (calls st) @ [SearchCall (strip a) 4, SearchCall (strip b) 4] \<and>
           filter is_extract (calls (snd (run_pipeline env self question st))) =
             filter is_extract (calls st) @ map (\<lambda>h. ExtractCall (snippet h)) (hits_a @ hits_b)) \<and>
         filter is_search
           (calls (snd (run_pipeline env self (str ''iPhone 15 Pro vs Pixel 8 Pro'') st))) =
           filter is_search (calls st) @
           [SearchCall (str ''iPhone 15 Pro'') 4, SearchCall (str ''Pixel 8 Pro'') 4]"
proof -
  from assms obtain vs_match where m: "re_search vs_pattern question = Some vs_match"
    using vs_match_iff_shape [of question] by blast
  from vs_pipeline_calls [OF m, of env self st] m iphone_searches [of env self st]
    strip_stripped
  show ?thesis by blast
qed

theorem vs_question_two_searches_witness:
  "vs_shape (str ''  Sony XM5 vs. Apple AirPods Max ?'') \<and>
   (\<exists>m. re_search vs_pattern (str ''  Sony XM5 vs. Apple AirPods Max ?'') = Some m \<and>
       group (str ''  Sony XM5 vs. Apple AirPods Max ?'') m 1 = Some (str ''  Sony XM5'') \<and>
       group (str ''  Sony XM5 vs. Apple AirPods Max ?'') m 2 = Some (str ''Apple AirPods Max '')) \<and>
   stripped_of (str ''Sony XM5'') (str ''  Sony XM5'') \<and>
   stripped_of (str ''Apple AirPods Max'') (str ''Apple AirPods Max '') \<and>
   filter is_search (calls (snd (run_pipeline (fixed_env (Body five_results) ChatRaised ChatRaised)
      demo_sage (str ''  Sony XM5 vs. Apple AirPods Max ?'') fresh))) =
     [SearchCall (str ''Sony XM5'') 4, SearchCall (str ''Apple AirPods Max'') 4] \<and>
   fst (gather_hits (fixed_env (Body five_results) ChatRaised ChatRaised) demo_sage
      (str ''  Sony XM5 vs. Apple AirPods Max ?'') fresh) = Inr (five_hits @ five_hits)"
proof -
  let ?q = "str ''  Sony XM5 vs. Apple AirPods Max ?''"
  let ?env = "fixed_env (Body five_results) ChatRaised ChatRaised"
  have sh: "vs_shape ?q"
    using spaced_groups vs_match_iff_shape [of ?q] by blast
  from vs_question_two_searches [OF sh, of ?env demo_sage fresh]
  obtain vs_match a b hits_a st1 hits_b st2 where
    m: "re_search vs_pattern ?q = Some vs_match" and
    g: "group ?q vs_match 1 = Some a" "group ?q vs_match 2 = Some b" and
    t: "stripped_of (strip a) a" "stripped_of (strip b) b" and
    s: "search ?env (scout demo_sage) (strip a) 4 fresh = (hits_a, st1)"
       "search ?env (scout demo_sage) (strip b) 4 st1 = (hits_b, st2)" and
    h: "gather_hits ?env demo_sage ?q fresh = (Inr (hits_a @ hits_b), st2)" and
    c: "filter is_search (calls (snd (run_pipeline ?env demo_sage ?q fresh))) =
          filter is_search (calls fresh) @ [SearchCall (strip a) 4, SearchCall (strip b) 4]"
    by blast
  from spaced_groups m g have ab: "a = str ''  Sony XM5''" "b = str ''Apple AirPods Max ''"
    by auto
  from s have "hits_a = five_hits" "hits_b = five_hits"
    by (simp_all add: five_results_search)
  with h have gh: "fst (gather_hits ?env demo_sage ?q fresh) = Inr (five_hits @ five_hits)"
    by simp
  from t ab have st: "stripped_of (str ''Sony XM5'') (str ''  Sony XM5'')"
      "stripped_of (str ''Apple AirPods Max'') (str ''Apple AirPods Max '')"
    by (simp_all add: strip_spaced)
  from c ab have "filter is_search (calls (snd (run_pipeline ?env demo_sage ?q fresh))) =
     [SearchCall (str ''Sony XM5'') 4, SearchCall (str ''Apple AirPods Max'') 4]"
    by (simp add: strip_spaced fresh_def)
  with sh spaced_groups st gh show ?thesis by blast
qed

text \<open>
  Claim C2. Whenever the question does not have the shape \<open>vs_shape\<close>, the pattern does
  not match it and \<open>run_pipeline\<close> makes exactly one search call, on the whole question,
  with \<open>max_results\<close> 8, and its hits are the ones that go on to enrichment.
\<close>

theorem plain_question_one_search:
  assumes "\<not> vs_shape question"
  shows "re_search vs_pattern question = None \<and>
         filter is_search (calls (snd (run_pipeline env self question st))) =
           filter is_search (calls st) @ [SearchCall question 8] \<and>
         fst (gather_hits env self question st) =
           Inr (fst (search env (scout self) question 8 st))"
proof -
  from assms have n: "re_search vs_pattern question = None"
    using vs_match_iff_shape [of question] by (cases "re_search vs_pattern question") auto
  from plain_pipeline_searches [OF n, of env self st] n
  show ?thesis by (simp add: gather_hits_def split: prod.splits)
qed

theorem plain_question_one_search_witness:
  "\<not> vs_shape (str ''best headphones under $500'') \<and>
   filter is_search (calls (snd (run_pipeline (fixed_env ConnectFailed ChatRaised ChatRaised)
      demo_sage (str ''best headphones under $500'') fresh))) =
     [SearchCall (str ''best headphones under $500'') 8]"
proof -
  have n: "\<not> vs_shape (str ''best headphones under $500'')"
    using plain_question vs_match_iff_shape [of "str ''best headphones under $500''"] by simp
  from plain_question_one_search [OF n, of "fixed_env ConnectFailed ChatRaised ChatRaised" demo_sage fresh] n
  show ?thesis by (simp add: fresh_def)
qed

text \<open>
  Claim C3. The \<open>sources\<close> of a returned result are the first four enriched products in
  their order: never more than four, and exactly four when more than four were enriched.
\<close>

theorem sources_capped:
  assumes "run_pipeline env self question st = (Inr r, st')"
    and "gather_hits env self question st = (Inr hits, st1)"
    and "enrich_products env (judge self) [] hits st1 = (enriched_products, st2)"
  shows "length (sources r) \<le> 4 \<and> sources r = take 4 enriched_products \<and>
         (4 < length enriched_products \<longrightarrow>
            length (sources r) = 4 \<and> (\<forall>i<4. sources r ! i = enriched_products ! i))"
proof -
  obtain judged st3 where
    j: "judge_products env (judge self) question enriched_products st2 = (judged, st3)"
    by (cases "judge_products env (judge self) question enriched_products st2")
  have "\<exists>verdict. judged = Inr verdict"
  proof (cases judged)
    case (Inl e)
    with run_pipeline_raises [OF assms(2,3)] j assms(1) show ?thesis by simp
  next
    case (Inr verdict)
    then show ?thesis by blast
  qed
  then obtain verdict where v: "judged = Inr verdict" by blast
  have "assemble_result question verdict enriched_products = Inr r"
    using run_pipeline_unfold [OF assms(2,3)] j v assms(1) by simp
  then have "sources r = take 4 enriched_products"
    by (rule assemble_result_sources)
  then show ?thesis by simp
qed

theorem sources_capped_witness:
  "\<exists>r st'. run_pipeline (fixed_env (Body five_results) (ChatContent (str ''ok'')) (ChatContent (str ''{}'')))
             demo_sage (str ''best headphones under $500'') fresh = (Inr r, st') \<and>
     map title (sources r) = [JStr (str ''A''), JStr (str ''B''), JStr (str ''C''), JStr (str ''D'')] \<and>
     length (sources r) = 4"
proof -
  let ?env = "fixed_env (Body five_results) (ChatContent (str ''ok'')) (ChatContent (str ''{}''))"
  let ?q = "str ''best headphones under $500''"
  let ?st1 = "\<lparr>world = (), calls = [SearchCall ?q 8]\<rparr>"
  have g: "gather_hits ?env demo_sage ?q fresh = (Inr five_hits, ?st1)"
    by (rule five_gather)
  obtain eps st2 where e: "enrich_products ?env (judge demo_sage) [] five_hits ?st1 = (eps, st2)"
    by (cases "enrich_products ?env (judge demo_sage) [] five_hits ?st1")
  have eps: "eps = five_products (strip (str ''ok''))"
    using five_enrich [of "Body five_results" "str ''ok''" "ChatContent (str ''{}'')" "judge demo_sage" ?st1] e
    by simp
  obtain jr st3 where j0: "judge_products ?env (judge demo_sage) ?q eps st2 = (jr, st3)"
    by (cases "judge_products ?env (judge demo_sage) ?q eps st2")
  have jr: "jr = Inr (JObject [])"
    using j0 by (simp add: judge_products_def call_openai_def fixed_env_def openai_kwargs_def
        demo_limits_def strip_def json_loads_def skip_ws_def str_def is_space_def
        split: prod.splits)
  have j: "judge_products ?env (judge demo_sage) ?q eps st2 = (Inr (JObject []), st3)"
    using j0 jr by simp
  have "assemble_result ?q (JObject []) eps =
          Inr \<lparr>query = ?q, winner = JStr [], ranking = JArray [], reasons = JArray [],
               sources = take 4 eps\<rparr>"
    by (simp add: assemble_result_def)
  then have run: "run_pipeline ?env demo_sage ?q fresh =
          (Inr \<lparr>query = ?q, winner = JStr [], ranking = JArray [], reasons = JArray [],
               sources = take 4 eps\<rparr>, st3)"
    using run_pipeline_unfold [OF g e j] by simp
  from sources_capped [OF run g e]
  have "sources \<lparr>query = ?q, winner = JStr [], ranking = JArray [], reasons = JArray [],
               sources = take 4 eps\<rparr> = take 4 eps"
    and "length (sources \<lparr>query = ?q, winner = JStr [], ranking = JArray [], reasons = JArray [],
               sources = take 4 eps\<rparr>) \<le> 4"
    by simp_all
  moreover have "map title (take 4 eps) = [JStr (str ''A''), JStr (str ''B''), JStr (str ''C''), JStr (str ''D'')]"
    by (simp add: eps five_products_def five_hits_def hit.defs product.defs)
  moreover have "length (take 4 eps) = 4"
    by (simp add: eps five_products_def five_hits_def)
  ultimately show ?thesis using run by simp
qed

text \<open>
  Claim C4 says that every response text that is not JSON makes \<open>judge_products\<close> return
  the fallback verdict. A text that \<open>json.loads\<close> refuses with \<open>JSONDecodeError\<close> does
  (lemma \<open>decode_error_fallback\<close>). A text that runs \<open>json.loads\<close> into a limit of the
  interpreter does not: with room for 1000 nested containers, 1001 opening brackets raise
  \<open>RecursionError\<close>, and with a limit of 4300 digits an opening bracket followed by 4301
  digits raises \<open>ValueError\<close>. Neither is caught, so \<open>judge_products\<close> raises.
\<close>

theorem limit_errors_not_caught:
  "fst (judge_products (fixed_env ConnectFailed ChatRaised (ChatContent (replicate 1001 91)))
      (judge demo_sage) (str ''best laptop'') [] fresh) = Inl RecursionError \<and>
   fst (judge_products
      (fixed_env ConnectFailed ChatRaised (ChatContent (91 # 49 # replicate 4300 49)))
      (judge demo_sage) (str ''best laptop'') [] fresh) = Inl ValueError"
proof -
  have s1: "strip (replicate 1001 91) = replicate 1001 91"
    by (rule strip_unchanged) (simp_all add: is_space_def)
  have s2: "strip (91 # 49 # replicate 4300 49) = 91 # 49 # replicate 4300 49"
    by (rule strip_unchanged) (simp_all add: is_space_def)
  have "replicate 1001 (91::nat) = replicate (Suc (max_depth demo_limits)) 91"
    by (simp add: demo_limits_def del: replicate_Suc)
  then have l1: "json_loads demo_limits (replicate 1001 91) = Inl RecursionError"
    using too_deep_loads [of demo_limits] by simp
  have l2: "json_loads demo_limits (91 # 49 # replicate 4300 49) = Inl ValueError"
    using too_many_digits [of demo_limits] by (simp add: demo_limits_def)
  show ?thesis
    by (simp add: judge_products_def call_openai_def fixed_env_def openai_kwargs_def s1 s2 l1 l2)
qed

text \<open>
  Claim C5 says that \<open>run_pipeline\<close> never raises, whatever the backends answer. With
  every search failing and the judging request answered by the text \<open>[]\<close>, which is valid
  JSON for a list, \<open>judge_products\<close> returns that list and \<open>verdict.get\<close> raises
  \<open>AttributeError\<close> out of \<open>run_pipeline\<close>.
\<close>

theorem list_verdict_raises:
  "fst (run_pipeline (fixed_env ConnectFailed ChatRaised (ChatContent (str ''[]'')))
      demo_sage (str ''best laptop'') fresh) = Inl AttributeError"
proof -
  let ?env = "fixed_env ConnectFailed ChatRaised (ChatContent (str ''[]''))"
  let ?st1 = "\<lparr>world = (), calls = [SearchCall (str ''best laptop'') 8]\<rparr>"
  have g: "gather_hits ?env demo_sage (str ''best laptop'') fresh = (Inr [], ?st1)"
    by (rule gather_failed)
  have e: "enrich_products ?env (judge demo_sage) [] [] ?st1 = ([], ?st1)" by simp
  have j: "fst (judge_products ?env (judge demo_sage) (str ''best laptop'') [] ?st1) =
      Inr (JArray [])"
    by (simp add: judge_products_def call_openai_def fixed_env_def openai_kwargs_def strip_def
        demo_limits_def json_loads_def skip_ws_def str_def is_space_def)
  obtain v st3 where jp0: "judge_products ?env (judge demo_sage) (str ''best laptop'') [] ?st1 = (v, st3)"
    by (cases "judge_products ?env (judge demo_sage) (str ''best laptop'') [] ?st1")
  with j have jp: "judge_products ?env (judge demo_sage) (str ''best laptop'') [] ?st1 =
      (Inr (JArray []), st3)" by simp
  show ?thesis
    using run_pipeline_unfold [OF g e jp] by (simp add: assemble_result_def)
qed

text \<open>
  Claim C6. When a search succeeds, each hit's snippet is \<open>content[:500]\<close> of the item it
  came from (of the empty string when the item has no content): for a string content its
  first 500 characters, which are exactly 500 when the content is longer.
\<close>

theorem snippet_clipped:
  assumes "http_post env (base_url self @ str ''/search'') (search_payload self q k) (world st) =
             (Body text, w')"
    and "json_loads (limits env) text = Inr data"
    and "py_get data (str ''results'') (JArray []) = Inr (JArray items)"
    and "normalize_results [] items = Inr hits"
  shows "fst (search env self q k st) = hits \<and> length hits = length items \<and>
         (\<forall>i<length items. \<exists>kvs. items ! i = JObject kvs \<and>
            py_slice500 (case map_of kvs (str ''content'') of None \<Rightarrow> JStr [] | Some c \<Rightarrow> c) =
              Inr (snippet (hits ! i)) \<and>
            (\<forall>s. map_of kvs (str ''content'') = Some (JStr s) \<longrightarrow>
               snippet (hits ! i) = JStr (take 500 s) \<and>
               (500 < length s \<longrightarrow> length (take 500 s) = 500)))"
proof -
  from normalize_results_spec [OF assms(4)] have
    len: "length hits = length items" and
    sp: "\<forall>i<length items. \<exists>kvs. items ! i = JObject kvs \<and>
          py_slice500 (case map_of kvs (str ''content'') of None \<Rightarrow> JStr [] | Some c \<Rightarrow> c) =
            Inr (snippet (hits ! i))"
    by auto
  have "\<forall>i<length items. \<exists>kvs. items ! i = JObject kvs \<and>
            py_slice500 (case map_of kvs (str ''content'') of None \<Rightarrow> JStr [] | Some c \<Rightarrow> c) =
              Inr (snippet (hits ! i)) \<and>
            (\<forall>s. map_of kvs (str ''content'') = Some (JStr s) \<longrightarrow>
               snippet (hits ! i) = JStr (take 500 s) \<and>
               (500 < length s \<longrightarrow> length (take 500 s) = 500))"
  proof (intro allI impI)
    fix i assume "i < length items"
    with sp obtain kvs where k: "items ! i = JObject kvs"
      "py_slice500 (case map_of kvs (str ''content'') of None \<Rightarrow> JStr [] | Some c \<Rightarrow> c) =
              Inr (snippet (hits ! i))"
      by blast
    have "\<forall>s. map_of kvs (str ''content'') = Some (JStr s) \<longrightarrow>
               snippet (hits ! i) = JStr (take 500 s) \<and>
               (500 < length s \<longrightarrow> length (take 500 s) = 500)"
      using k(2) by auto
    with k show "\<exists>kvs. items ! i = JObject kvs \<and>
            py_slice500 (case map_of kvs (str ''content'') of None \<Rightarrow> JStr [] | Some c \<Rightarrow> c) =
              Inr (snippet (hits ! i)) \<and>
            (\<forall>s. map_of kvs (str ''content'') = Some (JStr s) \<longrightarrow>
               snippet (hits ! i) = JStr (take 500 s) \<and>
               (500 < length s \<longrightarrow> length (take 500 s) = 500))"
      by blast
  qed
  with search_body [OF assms] len show ?thesis by blast
qed

theorem snippet_clipped_witness:
  "json_loads (limits (fixed_env (Body long_result) ChatRaised ChatRaised)) long_result =
     Inr (JObject [(str ''results'', JArray
       [JObject [(str ''title'', JStr (str ''T'')), (str ''content'', JStr (replicate 501 120))]])]) \<and>
   500 < length (replicate 501 (120::nat)) \<and>
   map snippet (fst (search (fixed_env (Body long_result) ChatRaised ChatRaised) (scout demo_sage)
      (str ''Pixel 8 Pro'') 4 fresh)) = [JStr (replicate 500 120)]"
proof -
  let ?env = "fixed_env (Body long_result) ChatRaised ChatRaised"
  let ?item = "JObject [(str ''title'', JStr (str ''T'')), (str ''content'', JStr (replicate 501 120))]"
  let ?data = "JObject [(str ''results'', JArray [?item])]"
  let ?hit = "\<lparr>title = JStr (str ''T''), url = JStr [], snippet = JStr (replicate 500 120)\<rparr>"
  have p: "http_post ?env (base_url (scout demo_sage) @ str ''/search'')
             (search_payload (scout demo_sage) (str ''Pixel 8 Pro'') 4) (world fresh) =
             (Body long_result, ())"
    by (simp add: fixed_env_def)
  have l: "json_loads (limits ?env) long_result = Inr ?data"
    using long_result_loads by (simp add: fixed_env_def)
  have g: "py_get ?data (str ''results'') (JArray []) = Inr (JArray [?item])" by simp
  have n: "normalize_results [] [?item] = Inr [?hit]"
    by (simp add: str_def)
  from snippet_clipped [OF p l g n]
  have "fst (search ?env (scout demo_sage) (str ''Pixel 8 Pro'') 4 fresh) = [?hit]"
    by blast
  with l show ?thesis by simp
qed

text \<open>
  Claim C7. If \<open>client.post\<close> or \<open>raise_for_status\<close> raises, the \<open>try\<close> block of \<open>search\<close>
  ends in that exception and \<open>search\<close> returns the empty list.
\<close>

theorem search_failure_empty:
  assumes "fst (http_post env (base_url self @ str ''/search'') (search_payload self q k) (world st))
             = ConnectFailed \<or>
           fst (http_post env (base_url self @ str ''/search'') (search_payload self q k) (world st))
             = BadStatus"
  shows "fst (search env self q k st) = [] \<and>
         (fst (search_try env self q k (world st)) = Inl TransportError \<or>
          fst (search_try env self q k (world st)) = Inl HTTPStatusError)"
  using assms by (auto simp: search_def search_try_def case_prod_beta)

theorem search_failure_empty_witness:
  "fst (http_post (fixed_env BadStatus ChatRaised ChatRaised)
         (base_url (scout demo_sage) @ str ''/search'')
         (search_payload (scout demo_sage) (str ''Pixel 8 Pro'') 4) (world fresh)) = BadStatus \<and>
   fst (search (fixed_env BadStatus ChatRaised ChatRaised) (scout demo_sage) (str ''Pixel 8 Pro'') 4 fresh) = [] \<and>
   fst (search (fixed_env ConnectFailed ChatRaised ChatRaised) (scout demo_sage) (str ''Pixel 8 Pro'') 4 fresh) = []"
proof -
  have h1: "fst (http_post (fixed_env BadStatus ChatRaised ChatRaised)
         (base_url (scout demo_sage) @ str ''/search'')
         (search_payload (scout demo_sage) (str ''Pixel 8 Pro'') 4) (world fresh)) = BadStatus"
    by (simp add: fixed_env_def)
  have h2: "fst (http_post (fixed_env ConnectFailed ChatRaised ChatRaised)
         (base_url (scout demo_sage) @ str ''/search'')
         (search_payload (scout demo_sage) (str ''Pixel 8 Pro'') 4) (world fresh)) = ConnectFailed"
    by (simp add: fixed_env_def)
  from search_failure_empty [of "fixed_env BadStatus ChatRaised ChatRaised" "scout demo_sage"
      "str ''Pixel 8 Pro''" 4 fresh] h1
    search_failure_empty [of "fixed_env ConnectFailed ChatRaised ChatRaised" "scout demo_sage"
      "str ''Pixel 8 Pro''" 4 fresh] h2
  show ?thesis by blast
qed

text \<open>
  Claim C8. If the searches yield no hit, enrichment yields no product and makes no call,
  and \<open>judge_products\<close> is still called exactly once, with the empty product list; the
  result is assembled from the verdict it returns.
\<close>

theorem no_hits_still_judged:
  assumes "gather_hits env self question st = (Inr [], st1)"
  shows "enrich_products env (judge self) [] [] st1 = ([], st1) \<and>
         calls (snd (run_pipeline env self question st)) = calls st1 @ [JudgeCall question []] \<and>
         run_pipeline env self question st =
           (case fst (judge_products env (judge self) question [] st1) of
              Inl e \<Rightarrow> Inl e
            | Inr verdict \<Rightarrow> assemble_result question verdict [],
            snd (judge_products env (judge self) question [] st1)) \<and>
         (\<forall>r. fst (run_pipeline env self question st) = Inr r \<longrightarrow> sources r = [])"
proof -
  have e: "enrich_products env (judge self) [] [] st1 = ([], st1)" by simp
  have c: "calls (snd (run_pipeline env self question st)) = calls st1 @ [JudgeCall question []]"
    using run_pipeline_calls [OF assms] by simp
  have r: "run_pipeline env self question st =
           (case fst (judge_products env (judge self) question [] st1) of
              Inl e \<Rightarrow> Inl e
            | Inr verdict \<Rightarrow> assemble_result question verdict [],
            snd (judge_products env (judge self) question [] st1))"
  proof -
    obtain jr st3 where jp: "judge_products env (judge self) question [] st1 = (jr, st3)"
      by (cases "judge_products env (judge self) question [] st1")
    show ?thesis
    proof (cases jr)
      case (Inl x)
      with run_pipeline_raises [OF assms e] jp show ?thesis by simp
    next
      case (Inr verdict)
      with run_pipeline_unfold [OF assms e] jp show ?thesis by simp
    qed
  qed
  have s: "\<forall>r. fst (run_pipeline env self question st) = Inr r \<longrightarrow> sources r = []"
  proof (intro allI impI)
    fix res assume a: "fst (run_pipeline env self question st) = Inr res"
    then obtain verdict where "assemble_result question verdict [] = Inr res"
      using r by (cases "fst (judge_products env (judge self) question [] st1)") simp_all
    then show "sources res = []" using assemble_result_sources by fastforce
  qed
  from e c r s show ?thesis by blast
qed

theorem no_hits_still_judged_witness:
  "gather_hits (fixed_env ConnectFailed ChatRaised ChatRaised) demo_sage (str ''best laptop'') fresh =
     (Inr [], \<lparr>world = (), calls = [SearchCall (str ''best laptop'') 8]\<rparr>) \<and>
   calls (snd (run_pipeline (fixed_env ConnectFailed ChatRaised ChatRaised) demo_sage
      (str ''best laptop'') fresh)) =
     [SearchCall (str ''best laptop'') 8, JudgeCall (str ''best laptop'') []]"
proof -
  have g: "gather_hits (fixed_env ConnectFailed ChatRaised ChatRaised) demo_sage (str ''best laptop'') fresh =
     (Inr [], \<lparr>world = (), calls = [SearchCall (str ''best laptop'') 8]\<rparr>)"
    by (rule gather_failed)
  from no_hits_still_judged [OF g]
  have "calls (snd (run_pipeline (fixed_env ConnectFailed ChatRaised ChatRaised) demo_sage
      (str ''best laptop'') fresh)) =
     calls \<lparr>world = (), calls = [SearchCall (str ''best laptop'') 8]\<rparr> @
       [JudgeCall (str ''best laptop'') []]"
    by blast
  with g show ?thesis by simp
qed

text \<open>
  Claim C9 says that enrichment never mutates a hit. The stand-alone \<open>enrich\<close> does: it
  writes the summary into the dict it was given, so the caller's hit is not what it was.
\<close>

theorem enrich_mutates_hit:
  "fst (snd (enrich (fixed_env ConnectFailed (ChatContent (str ''ok'')) ChatRaised) [0]
      demo_store fresh)) 0 \<noteq> demo_store 0"
  by (simp add: demo_enrich) (simp add: demo_store_def)

text \<open>
  Claim C9, amended. The enrichment loop of \<open>run_pipeline\<close> builds one new product per
  hit, in the order of the hits: product \<open>i\<close> has the title, url and snippet of hit \<open>i\<close>
  and, as its summary, the text \<open>extract_product_info\<close> returned for that snippet after
  the hits before it were summarised, and nothing else. Run on hits held in a store, the
  loop leaves every dict of the store as it was, also when it raises, and on the dicts
  that \<open>search\<close> builds it makes the same products. The
  stand-alone \<open>enrich\<close> changes no key but \<open>summary\<close> and no dict outside the list,
  whether it returns or raises; it raises when the agent cannot be built or a hit has no
  snippet, and otherwise returns the list it was given, each hit's dict now holding under
  \<open>summary\<close> the text \<open>extract_product_info\<close> returned for its snippet (for a hit listed
  twice, the dict holds the summary written last).
\<close>

theorem enrichment_adds_only_summary:
  "(length (fst (enrich_products env j [] hits st)) = length hits \<and>
    (\<forall>i<length hits.
       fst (enrich_products env j [] hits st) ! i =
         \<lparr>title = title (hits ! i), url = url (hits ! i), snippet = snippet (hits ! i),
          summary = fst (extract_product_info env j (snippet (hits ! i))
                      (snd (enrich_products env j [] (take i hits) st)))\<rparr>)) \<and>
   fst (snd (enrich_products_at env j [] refs h st)) = h \<and>
   (length refs = length hits \<and> (\<forall>i<length refs. h (refs ! i) = hit_dict (hits ! i)) \<longrightarrow>
      enrich_products_at env j [] refs h st =
        (Inr (fst (enrich_products env j [] hits st)), h,
         snd (enrich_products env j [] hits st))) \<and>
   (enrich env refs h st = (res, h', st') \<longrightarrow>
      (\<forall>r k. k \<noteq> str ''summary'' \<longrightarrow> map_of (h' r) k = map_of (h r) k) \<and>
      (\<forall>r. r \<notin> set refs \<longrightarrow> h' r = h r) \<and>
      res = (case JudgeAgent_init env of
               Inl e \<Rightarrow> Inl e
             | Inr jd \<Rightarrow>
                 if \<forall>r\<in>set refs. map_of (h r) (str ''snippet'') \<noteq> None then Inr refs
                 else Inl KeyError) \<and>
      (\<forall>out. res = Inr out \<longrightarrow>
         out = refs \<and>
         (\<exists>jd. JudgeAgent_init env = Inr jd \<and>
            (\<forall>i<length refs. refs ! i \<notin> set (drop (Suc i) refs) \<longrightarrow>
               (\<exists>sn. map_of (h (refs ! i)) (str ''snippet'') = Some sn \<and>
                  h' (refs ! i) =
                    AList.update (str ''summary'')
                      (JStr (fst (extract_product_info env jd sn
                               (snd (snd (enrich_loop env jd (take i refs) h st))))))
                      (h (refs ! i)))))))"
proof -
  have a: "length (fst (enrich_products env j [] hits st)) = length hits"
    using enrich_products_length [of env j "[]" hits st] by simp
  have b: "\<forall>i<length hits.
       fst (enrich_products env j [] hits st) ! i =
         \<lparr>title = title (hits ! i), url = url (hits ! i), snippet = snippet (hits ! i),
          summary = fst (extract_product_info env j (snippet (hits ! i))
                      (snd (enrich_products env j [] (take i hits) st)))\<rparr>"
    using enrich_products_nth [of _ hits env j st] by blast
  have c: "enrich_products_at env j [] refs h st =
        (Inr (fst (enrich_products env j [] hits st)), h,
         snd (enrich_products env j [] hits st))"
    if "length refs = length hits \<and> (\<forall>i<length refs. h (refs ! i) = hit_dict (hits ! i))"
    using that enrich_products_at_agrees [of refs hits h env j "[]" st] by blast
  have d: "(\<forall>r k. k \<noteq> str ''summary'' \<longrightarrow> map_of (h' r) k = map_of (h r) k) \<and>
      (\<forall>r. r \<notin> set refs \<longrightarrow> h' r = h r) \<and>
      res = (case JudgeAgent_init env of
               Inl e \<Rightarrow> Inl e
             | Inr jd \<Rightarrow>
                 if \<forall>r\<in>set refs. map_of (h r) (str ''snippet'') \<noteq> None then Inr refs
                 else Inl KeyError) \<and>
      (\<forall>out. res = Inr out \<longrightarrow>
         out = refs \<and>
         (\<exists>jd. JudgeAgent_init env = Inr jd \<and>
            (\<forall>i<length refs. refs ! i \<notin> set (drop (Suc i) refs) \<longrightarrow>
               (\<exists>sn. map_of (h (refs ! i)) (str ''snippet'') = Some sn \<and>
                  h' (refs ! i) =
                    AList.update (str ''summary'')
                      (JStr (fst (extract_product_info env jd sn
                               (snd (snd (enrich_loop env jd (take i refs) h st))))))
                      (h (refs ! i))))))"
    if run: "enrich env refs h st = (res, h', st')"
  proof -
    have f: "(\<forall>r k. k \<noteq> str ''summary'' \<longrightarrow> map_of (h' r) k = map_of (h r) k) \<and>
      (\<forall>r. r \<notin> set refs \<longrightarrow> h' r = h r)"
      using run by (rule enrich_frame)
    have o: "res = (case JudgeAgent_init env of
               Inl e \<Rightarrow> Inl e
             | Inr jd \<Rightarrow>
                 if \<forall>r\<in>set refs. map_of (h r) (str ''snippet'') \<noteq> None then Inr refs
                 else Inl KeyError)"
      using enrich_outcome [of env refs h st] run by simp
    have w: "out = refs \<and>
         (\<exists>jd. JudgeAgent_init env = Inr jd \<and>
            (\<forall>i<length refs. refs ! i \<notin> set (drop (Suc i) refs) \<longrightarrow>
               (\<exists>sn. map_of (h (refs ! i)) (str ''snippet'') = Some sn \<and>
                  h' (refs ! i) =
                    AList.update (str ''summary'')
                      (JStr (fst (extract_product_info env jd sn
                               (snd (snd (enrich_loop env jd (take i refs) h st))))))
                      (h (refs ! i)))))"
      if r: "res = Inr out" for out
    proof -
      from enrich_returns [of env refs h st out h' st'] run r obtain jd where
        jd: "JudgeAgent_init env = Inr jd" and l: "enrich_loop env jd refs h st = (None, h', st')"
        and out: "out = refs"
        by blast
      from enrich_loop_written [OF l] jd out show ?thesis by blast
    qed
    from f o w show ?thesis by blast
  qed
  have s: "fst (snd (enrich_products_at env j [] refs h st)) = h"
    by (rule enrich_products_at_store)
  from a b s c d show ?thesis by blast
qed

theorem enrichment_adds_only_summary_witness:
  "fst (enrich_products (fixed_env ConnectFailed (ChatContent (str ''ok'')) ChatRaised)
      (judge demo_sage) [] [demo_hit] fresh) =
     [\<lparr>title = JStr (str ''A''), url = JStr (str ''a''), snippet = JStr (str ''text''),
       summary = str ''ok''\<rparr>] \<and>
   demo_store 0 = hit_dict demo_hit \<and>
   enrich_products_at (fixed_env ConnectFailed (ChatContent (str ''ok'')) ChatRaised)
      (judge demo_sage) [] [0] demo_store fresh =
     (Inr [\<lparr>title = JStr (str ''A''), url = JStr (str ''a''), snippet = JStr (str ''text''),
            summary = str ''ok''\<rparr>],
      demo_store, \<lparr>world = (), calls = [ExtractCall (JStr (str ''text''))]\<rparr>) \<and>
   enrich (fixed_env ConnectFailed (ChatContent (str ''ok'')) ChatRaised) [0] demo_store fresh =
     (Inr [0],
      demo_store(0 := [(str ''title'', JStr (str ''A'')), (str ''url'', JStr (str ''a'')),
                       (str ''snippet'', JStr (str ''text'')), (str ''summary'', JStr (str ''ok''))]),
      \<lparr>world = (), calls = [ExtractCall (JStr (str ''text''))]\<rparr>) \<and>
   AList.update (str ''summary'') (JStr (str ''ok'')) (demo_store 0) =
     [(str ''title'', JStr (str ''A'')), (str ''url'', JStr (str ''a'')),
      (str ''snippet'', JStr (str ''text'')), (str ''summary'', JStr (str ''ok''))]"
proof -
  let ?env = "fixed_env ConnectFailed (ChatContent (str ''ok'')) ChatRaised"
  let ?p = "\<lparr>title = JStr (str ''A''), url = JStr (str ''a''), snippet = JStr (str ''text''),
       summary = str ''ok''\<rparr>"
  let ?h' = "demo_store(0 := [(str ''title'', JStr (str ''A'')), (str ''url'', JStr (str ''a'')),
                       (str ''snippet'', JStr (str ''text'')), (str ''summary'', JStr (str ''ok''))])"
  let ?st' = "\<lparr>world = (), calls = [ExtractCall (JStr (str ''text''))]\<rparr>"
  have run: "enrich ?env [0] demo_store fresh = (Inr [0], ?h', ?st')"
    by (rule demo_enrich)
  have held: "length [0::nat] = length [demo_hit] \<and>
      (\<forall>i<length [0::nat]. demo_store ([0] ! i) = hit_dict ([demo_hit] ! i))"
    by (simp add: demo_store_holds)
  note t = enrichment_adds_only_summary [of ?env "judge demo_sage" "[demo_hit]" fresh "[0]"
      demo_store "Inr [0]" ?h' ?st']
  from t have a: "fst (enrich_products ?env (judge demo_sage) [] [demo_hit] fresh) ! 0 =
      \<lparr>title = title demo_hit, url = url demo_hit, snippet = snippet demo_hit,
       summary = fst (extract_product_info ?env (judge demo_sage) (snippet demo_hit) fresh)\<rparr>"
    and len: "length (fst (enrich_products ?env (judge demo_sage) [] [demo_hit] fresh)) = 1"
    by simp_all
  have p0: "fst (enrich_products ?env (judge demo_sage) [] [demo_hit] fresh) ! 0 = ?p"
    using a by (simp add: demo_extract demo_hit_def)
  have ps: "fst (enrich_products ?env (judge demo_sage) [] [demo_hit] fresh) = [?p]"
    using len p0
    by (cases "fst (enrich_products ?env (judge demo_sage) [] [demo_hit] fresh)") simp_all
  from t held have "enrich_products_at ?env (judge demo_sage) [] [0] demo_store fresh =
      (Inr (fst (enrich_products ?env (judge demo_sage) [] [demo_hit] fresh)), demo_store,
       snd (enrich_products ?env (judge demo_sage) [] [demo_hit] fresh))"
    by blast
  moreover have "snd (enrich_products ?env (judge demo_sage) [] [demo_hit] fresh) = ?st'"
    by (simp add: demo_extract demo_hit_def fresh_def)
  ultimately have at: "enrich_products_at ?env (judge demo_sage) [] [0] demo_store fresh =
      (Inr [?p], demo_store, ?st')"
    using ps by simp
  have u: "AList.update (str ''summary'') (JStr (str ''ok'')) (demo_store 0) =
     [(str ''title'', JStr (str ''A'')), (str ''url'', JStr (str ''a'')),
      (str ''snippet'', JStr (str ''text'')), (str ''summary'', JStr (str ''ok''))]"
    by (simp add: demo_store_def str_def)
  from ps held at run u show ?thesis by simp
qed

text \<open>
  Claim C10. If the judging text parses as a JSON object, the result takes \<open>winner\<close>,
  \<open>ranking\<close> and \<open>reasons\<close> from it and puts the empty string, the empty list and the
  empty list in place of a missing key; the fallback verdict plays no part.
\<close>

theorem missing_verdict_keys_default:
  assumes "gather_hits env self question st = (Inr hits, st1)"
    and "enrich_products env (judge self) [] hits st1 = (enriched_products, st2)"
    and "call_openai env (judge self) judge_system_prompt
           (JStr (judge_user_prompt env question enriched_products)) True (world st2) = (text, w3)"
    and "json_loads (limits env) text = Inr (JObject kvs)"
  shows "fst (run_pipeline env self question st) =
           Inr \<lparr>query = question,
                winner = (case map_of kvs (str ''winner'') of None \<Rightarrow> JStr [] | Some v \<Rightarrow> v),
                ranking = (case map_of kvs (str ''ranking'') of None \<Rightarrow> JArray [] | Some v \<Rightarrow> v),
                reasons = (case map_of kvs (str ''reasons'') of None \<Rightarrow> JArray [] | Some v \<Rightarrow> v),
                sources = take 4 enriched_products\<rparr>"
proof -
  have j: "judge_products env (judge self) question enriched_products st2 =
             (Inr (JObject kvs),
              \<lparr>world = w3, calls = calls st2 @ [JudgeCall question enriched_products]\<rparr>)"
    using assms(3,4) by (simp add: judge_products_def)
  show ?thesis
    using run_pipeline_unfold [OF assms(1,2) j] by (simp add: assemble_result_def)
qed

theorem missing_verdict_keys_default_witness:
  \<open>fst (run_pipeline (fixed_env ConnectFailed ChatRaised (ChatContent (str ''{"winner": "A"}'')))
      demo_sage (str ''best laptop'') fresh) =
     Inr \<lparr>query = str ''best laptop'', winner = JStr (str ''A''), ranking = JArray [],
          reasons = JArray [], sources = []\<rparr>\<close>
proof -
  let ?env = \<open>fixed_env ConnectFailed ChatRaised (ChatContent (str ''{"winner": "A"}''))\<close>
  let ?st1 = "\<lparr>world = (), calls = [SearchCall (str ''best laptop'') 8]\<rparr>"
  have g: "gather_hits ?env demo_sage (str ''best laptop'') fresh = (Inr [], ?st1)"
    by (rule gather_failed)
  have e: "enrich_products ?env (judge demo_sage) [] [] ?st1 = ([], ?st1)" by simp
  have c: \<open>call_openai ?env (judge demo_sage) judge_system_prompt
           (JStr (judge_user_prompt ?env (str ''best laptop'') [])) True (world ?st1) =
           (str ''{"winner": "A"}'', ())\<close>
    by (simp add: call_openai_def fixed_env_def openai_kwargs_def strip_def str_def is_space_def)
  have l: \<open>json_loads (limits ?env) (str ''{"winner": "A"}'') =
      Inr (JObject [(str ''winner'', JStr (str ''A''))])\<close>
    by (simp add: json_loads_def fixed_env_def demo_limits_def str_def skip_ws_def)
  from missing_verdict_keys_default [OF g e c l]
  show ?thesis by (simp add: str_def)
qed

end
